theory Spec2Isabelle
  imports Main "HOL-Library.AList"
begin

section \<open>Data model\<close>

text \<open>
  The crossword generator of \<^verbatim>\<open>generate.py\<close>. The module \<^verbatim>\<open>crossword.py\<close>
  (classes \<^verbatim>\<open>Variable\<close> and \<^verbatim>\<open>Crossword\<close>) is imported by the source but is not
  part of it; what the solver reads from it is a parameter of every function here.
\<close>

datatype direction = ACROSS | DOWN

text \<open>A \<^verbatim>\<open>Variable\<close>: row, column, direction and length; equality is structural.\<close>

datatype variable =
  Variable (var_i: nat) (var_j: nat) (var_direction: direction) (var_length: nat)

type_synonym word = string

type_synonym overlap = "(nat \<times> nat) option"

text \<open>
  Modelled from the spec: the \<^verbatim>\<open>Crossword\<close> object. \<open>variables\<close> enumerates the
  set \<^verbatim>\<open>crossword.variables\<close> in its iteration order (a set: no repetition);
  \<open>words\<close> enumerates \<^verbatim>\<open>crossword.words\<close>; \<open>overlaps\<close> gives, for an ordered
  pair of distinct variables, \<open>None\<close> or the pair of indices of the shared cell.
\<close>

record crossword =
  variables :: "variable list"
  words :: "word list"
  overlaps :: "variable \<times> variable \<Rightarrow> overlap"

text \<open>The exceptions the solver can raise.\<close>

datatype py_error = KeyError | IndexError | TypeError

text \<open>
  Modelled from the spec: the dictionary \<^verbatim>\<open>crossword.overlaps\<close> has one key for
  every ordered pair of distinct variables; \<open>overlap_keys\<close> lists them and
  \<open>overlaps_get\<close> is the subscript \<^verbatim>\<open>crossword.overlaps[(x, y)]\<close>, a
  \<^verbatim>\<open>KeyError\<close> on any other pair.
\<close>

definition overlap_keys :: "crossword \<Rightarrow> (variable \<times> variable) list" where
  "overlap_keys cw =
     concat (map (\<lambda>x. map (\<lambda>y. (x, y)) (filter (\<lambda>y. y \<noteq> x) (variables cw))) (variables cw))"

definition overlaps_get :: "crossword \<Rightarrow> variable \<times> variable \<Rightarrow> py_error + overlap" where
  "overlaps_get cw p =
     (if fst p \<in> set (variables cw) \<and> snd p \<in> set (variables cw) \<and> fst p \<noteq> snd p
      then Inr (overlaps cw p) else Inl KeyError)"

text \<open>
  Modelled from the spec: \<^verbatim>\<open>crossword.neighbors(x)\<close>, the variables \<open>y\<close> with
  \<open>overlap(x, y)\<close> not \<open>None\<close>, listed in the order of \<open>variables\<close>.
\<close>

definition neighbors :: "crossword \<Rightarrow> variable \<Rightarrow> variable list" where
  "neighbors cw x = filter (\<lambda>y. y \<noteq> x \<and> overlaps cw (x, y) \<noteq> None) (variables cw)"

text \<open>
  The domain store \<^verbatim>\<open>self.domains\<close>: a dictionary with one entry per crossword
  variable, built by \<^verbatim>\<open>__init__\<close> and never given or losing a key afterwards. Each
  entry is a set of words, written as the list of its elements in iteration order.
  \<open>domains_get\<close> is the subscript \<^verbatim>\<open>self.domains[x]\<close>.
\<close>

type_synonym domains = "variable \<Rightarrow> word list"

definition domains_get :: "crossword \<Rightarrow> domains \<Rightarrow> variable \<Rightarrow> py_error + word list" where
  "domains_get cw ds x = (if x \<in> set (variables cw) then Inr (ds x) else Inl KeyError)"

text \<open>\<^verbatim>\<open>__init__\<close>: every variable starts with a copy of the whole word list.\<close>

definition init_domains :: "crossword \<Rightarrow> domains" where
  "init_domains cw = (\<lambda>var. words cw)"

text \<open>
  An assignment is a Python dictionary from variables to words: an association list in
  insertion order. \<^verbatim>\<open>assignment[v] = w\<close> is \<open>AList.update v w\<close> (a new key goes last),
  \<^verbatim>\<open>assignment.pop(v)\<close> is \<open>assignment_pop\<close>.
\<close>

type_synonym assignment = "(variable \<times> word) list"

definition assignment_pop :: "variable \<Rightarrow> assignment \<Rightarrow> py_error + assignment" where
  "assignment_pop v a =
     (case map_of a v of None \<Rightarrow> Inl KeyError | Some w \<Rightarrow> Inr (AList.delete v a))"

section \<open>Node consistency\<close>

text \<open>\<^verbatim>\<open>enforce_node_consistency\<close>: drop from every domain the words of the wrong length.\<close>

fun enforce_words :: "variable \<Rightarrow> word list \<Rightarrow> word list \<Rightarrow> word list" where
  "enforce_words variable [] d = d"
| "enforce_words variable (w # ws) d =
     (if length w \<noteq> var_length variable
      then enforce_words variable ws (removeAll w d)
      else enforce_words variable ws d)"

fun enforce_loop :: "variable list \<Rightarrow> domains \<Rightarrow> domains" where
  "enforce_loop [] ds = ds"
| "enforce_loop (variable # vs) ds =
     enforce_loop vs (ds(variable := enforce_words variable (ds variable) (ds variable)))"

definition enforce_node_consistency :: "crossword \<Rightarrow> domains \<Rightarrow> domains" where
  "enforce_node_consistency cw ds = enforce_loop (variables cw) ds"

section \<open>Arc consistency\<close>

text \<open>
  The inner loop of \<^verbatim>\<open>revise\<close>: \<^verbatim>\<open>for Y in self.domains[y]\<close>, with the flag
  \<^verbatim>\<open>valid_option_found\<close> as accumulator. \<^verbatim>\<open>X[i]\<close> is read before \<^verbatim>\<open>Y[j]\<close>;
  either raises \<^verbatim>\<open>IndexError\<close> out of range.
\<close>

fun valid_option :: "nat \<Rightarrow> nat \<Rightarrow> word \<Rightarrow> word list \<Rightarrow> bool \<Rightarrow> py_error + bool" where
  "valid_option i j X [] found = Inr found"
| "valid_option i j X (Y # Ys) found =
     (if length X \<le> i then Inl IndexError
      else if length Y \<le> j then Inl IndexError
      else if X ! i = Y ! j \<and> X \<noteq> Y then valid_option i j X Ys True
      else valid_option i j X Ys found)"

text \<open>
  The outer loop, \<^verbatim>\<open>for X in self.domains[x].copy()\<close>: \<open>dx\<close> is the set being
  mutated, \<open>revised\<close> the flag.
\<close>

fun revise_loop ::
  "nat \<Rightarrow> nat \<Rightarrow> word list \<Rightarrow> word list \<Rightarrow> word list \<Rightarrow> bool \<Rightarrow> py_error + (bool \<times> word list)"
where
  "revise_loop i j dy [] dx revised = Inr (revised, dx)"
| "revise_loop i j dy (X # Xs) dx revised =
     (case valid_option i j X dy False of
        Inl e \<Rightarrow> Inl e
      | Inr found \<Rightarrow>
          if \<not> found then revise_loop i j dy Xs (removeAll X dx) True
          else revise_loop i j dy Xs dx revised)"

definition revise :: "crossword \<Rightarrow> domains \<Rightarrow> variable \<Rightarrow> variable \<Rightarrow> py_error + (bool \<times> domains)" where
  "revise cw ds x y =
     (case overlaps_get cw (x, y) of
        Inl e \<Rightarrow> Inl e
      | Inr None \<Rightarrow> Inr (False, ds)
      | Inr (Some (i, j)) \<Rightarrow>
          (case revise_loop i j (ds y) (ds x) (ds x) False of
             Inl e \<Rightarrow> Inl e
           | Inr (revised, dx) \<Rightarrow> Inr (revised, ds(x := dx))))"

text \<open>
  What \<^verbatim>\<open>revise\<close> asks of a word \<open>X\<close> of \<open>x\<close>: some word \<open>Y\<close> of \<open>y\<close>, not \<open>X\<close>
  itself, carries the same letter at the overlap.
\<close>

definition supported :: "nat \<Rightarrow> nat \<Rightarrow> word list \<Rightarrow> word \<Rightarrow> bool" where
  "supported i j dy X = (\<exists>Y\<in>set dy. X ! i = Y ! j \<and> X \<noteq> Y)"

lemma valid_option_Inr:
  "valid_option i j X dy found = Inr r \<Longrightarrow>
   r = (found \<or> supported i j dy X) \<and> (dy = [] \<or> (i < length X \<and> (\<forall>Y\<in>set dy. j < length Y)))"
  unfolding supported_def
  by (induction dy arbitrary: found) (fastforce split: if_splits)+

lemma valid_option_safe:
  "i < length X \<Longrightarrow> \<forall>Y\<in>set dy. j < length Y \<Longrightarrow>
   valid_option i j X dy found = Inr (found \<or> supported i j dy X)"
  unfolding supported_def
  by (induction dy arbitrary: found) auto

lemma revise_loop_Inr:
  "revise_loop i j dy xs dx revised = Inr (r, dx') \<Longrightarrow>
   dx' = filter (\<lambda>X. X \<notin> set xs \<or> supported i j dy X) dx \<and>
   r = (revised \<or> (\<exists>X\<in>set xs. \<not> supported i j dy X))"
proof (induction xs arbitrary: dx revised)
  case Nil
  then show ?case by simp
next
  case (Cons X xs)
  from Cons.prems obtain found where v: "valid_option i j X dy False = Inr found"
    by (auto split: sum.splits)
  then have f: "found = supported i j dy X"
    using valid_option_Inr by fastforce
  show ?case
  proof (cases found)
    case True
    with Cons.prems v have "revise_loop i j dy xs dx revised = Inr (r, dx')" by simp
    from Cons.IH [OF this] True f show ?thesis
      by (auto intro: filter_cong)
  next
    case False
    with Cons.prems v have "revise_loop i j dy xs (removeAll X dx) True = Inr (r, dx')" by simp
    from Cons.IH [OF this] False f show ?thesis
      by (auto simp: removeAll_filter_not_eq intro: filter_cong)
  qed
qed

lemma revise_loop_safe:
  "\<forall>X\<in>set xs. i < length X \<Longrightarrow> \<forall>Y\<in>set dy. j < length Y \<Longrightarrow>
   \<exists>r dx'. revise_loop i j dy xs dx revised = Inr (r, dx')"
  by (induction xs arbitrary: dx revised) (auto simp: valid_option_safe)

lemma revise_loop_empty:
  "\<exists>r dx'. revise_loop i j [] xs dx revised = Inr (r, dx')"
  by (induction xs arbitrary: dx revised) auto

text \<open>What a call of \<^verbatim>\<open>revise\<close> that returns has done.\<close>

lemma revise_Inr:
  assumes "revise cw ds x y = Inr (r, ds')"
  shows "x \<in> set (variables cw) \<and> y \<in> set (variables cw) \<and> x \<noteq> y \<and>
         (case overlaps cw (x, y) of
            None \<Rightarrow> ds' = ds \<and> \<not> r
          | Some (i, j) \<Rightarrow>
              ds' = ds(x := filter (supported i j (ds y)) (ds x)) \<and>
              r = (\<exists>X\<in>set (ds x). \<not> supported i j (ds y) X))"
proof -
  from assms have k: "x \<in> set (variables cw) \<and> y \<in> set (variables cw) \<and> x \<noteq> y"
    by (auto simp: revise_def overlaps_get_def split: if_splits)
  show ?thesis
  proof (cases "overlaps cw (x, y)")
    case None
    with assms k show ?thesis by (auto simp: revise_def overlaps_get_def)
  next
    case (Some p)
    obtain i j where p: "p = (i, j)" by (cases p)
    from assms k Some p obtain dx where
      l: "revise_loop i j (ds y) (ds x) (ds x) False = Inr (r, dx)" and d: "ds' = ds(x := dx)"
      by (auto simp: revise_def overlaps_get_def split: sum.splits)
    from revise_loop_Inr [OF l] have
      "dx = filter (supported i j (ds y)) (ds x)" "r = (\<exists>X\<in>set (ds x). \<not> supported i j (ds y) X)"
      by (auto intro: filter_cong)
    with k Some p d show ?thesis by simp
  qed
qed

lemma revise_False_same: "revise cw ds x y = Inr (False, ds') \<Longrightarrow> ds' = ds"
  by (drule revise_Inr) (auto split: option.splits simp: filter_id_conv fun_upd_idem_iff)

lemma revise_True_shrinks:
  "revise cw ds x y = Inr (True, ds') \<Longrightarrow>
   x \<in> set (variables cw) \<and> length (ds' x) < length (ds x) \<and> (\<forall>v. v \<noteq> x \<longrightarrow> ds' v = ds v)"
  by (drule revise_Inr) (auto split: option.splits simp: length_filter_less)

text \<open>
  The number of words left in the domains of the crossword's variables: what the loop of
  \<^verbatim>\<open>ac3\<close> decreases whenever it appends arcs.
\<close>

definition domains_size :: "crossword \<Rightarrow> domains \<Rightarrow> nat" where
  "domains_size cw ds = (\<Sum>v\<in>set (variables cw). length (ds v))"

lemma domains_size_shrinks:
  assumes "x \<in> set (variables cw)" "length (ds' x) < length (ds x)" "\<forall>v. v \<noteq> x \<longrightarrow> ds' v = ds v"
  shows "domains_size cw ds' < domains_size cw ds"
  unfolding domains_size_def
proof (rule sum_strict_mono_ex1)
  show "finite (set (variables cw))" by simp
  show "\<forall>v\<in>set (variables cw). length (ds' v) \<le> length (ds v)"
    using assms by (metis less_or_eq_imp_le)
  show "\<exists>v\<in>set (variables cw). length (ds' v) < length (ds v)"
    using assms by blast
qed

text \<open>
  The \<^verbatim>\<open>while\<close> loop of \<^verbatim>\<open>ac3\<close> over the list \<open>arcs\<close>: \<^verbatim>\<open>arcs.pop(0)\<close> takes the
  head, \<^verbatim>\<open>arcs.append\<close> adds at the end. The result is the returned boolean, the
  domain store and the list \<open>arcs\<close> as the call leaves them.
\<close>

function ac3_loop ::
  "crossword \<Rightarrow> domains \<Rightarrow> (variable \<times> variable) list \<Rightarrow>
   py_error + (bool \<times> domains \<times> (variable \<times> variable) list)"
where
  "ac3_loop cw ds [] = Inr (True, ds, [])"
| "ac3_loop cw ds ((x, y) # arcs) =
     (case revise cw ds x y of
        Inl e \<Rightarrow> Inl e
      | Inr (revised, ds') \<Rightarrow>
          if revised then
            (if length (ds' x) = 0 then Inr (False, ds', arcs)
             else ac3_loop cw ds' (arcs @ map (\<lambda>z. (z, x)) (removeAll y (neighbors cw x))))
          else ac3_loop cw ds' arcs)"
  by pat_completeness auto
termination
proof (relation "measures [\<lambda>(cw, ds, arcs). domains_size cw ds, \<lambda>(cw, ds, arcs). length arcs]")
  show "wf (measures [\<lambda>(cw, ds, arcs). domains_size cw ds, \<lambda>(cw, ds, arcs). length arcs])"
    by simp
next
  fix cw ds x y arcs p revised ds'
  assume "revise cw ds x y = Inr p" "(revised, ds') = p" "revised"
  then have "revise cw ds x y = Inr (True, ds')" by simp
  from revise_True_shrinks [OF this] have "domains_size cw ds' < domains_size cw ds"
    by (intro domains_size_shrinks [of x]) auto
  then show "((cw, ds', arcs @ map (\<lambda>z. (z, x)) (removeAll y (neighbors cw x))), cw, ds, (x, y) # arcs)
    \<in> measures [\<lambda>(cw, ds, arcs). domains_size cw ds, \<lambda>(cw, ds, arcs). length arcs]"
    by simp
next
  fix cw ds x y arcs p revised ds'
  assume "revise cw ds x y = Inr p" "(revised, ds') = p" "\<not> revised"
  then have "revise cw ds x y = Inr (False, ds')" by simp
  from revise_False_same [OF this]
  show "((cw, ds', arcs), cw, ds, (x, y) # arcs)
    \<in> measures [\<lambda>(cw, ds, arcs). domains_size cw ds, \<lambda>(cw, ds, arcs). length arcs]"
    by simp
qed

text \<open>
  \<^verbatim>\<open>ac3(arcs=None)\<close>: without an argument the list starts as the keys of
  \<^verbatim>\<open>crossword.overlaps\<close> whose overlap is not \<open>None\<close>; a list the caller passes is
  used as it is.
\<close>

definition initial_arcs :: "crossword \<Rightarrow> (variable \<times> variable) list" where
  "initial_arcs cw = filter (\<lambda>pair. overlaps cw pair \<noteq> None) (overlap_keys cw)"

definition ac3 ::
  "crossword \<Rightarrow> domains \<Rightarrow> (variable \<times> variable) list option \<Rightarrow>
   py_error + (bool \<times> domains \<times> (variable \<times> variable) list)"
where
  "ac3 cw ds arcs =
     (case arcs of
        None \<Rightarrow> ac3_loop cw ds (initial_arcs cw)
      | Some given \<Rightarrow> ac3_loop cw ds given)"

section \<open>Backtracking search\<close>

text \<open>\<^verbatim>\<open>assignment_complete\<close> compares the two sizes.\<close>

definition assignment_complete :: "crossword \<Rightarrow> assignment \<Rightarrow> bool" where
  "assignment_complete cw a = (length a = length (variables cw))"

text \<open>
  \<^verbatim>\<open>consistent\<close>. The inner loop runs over the neighbours of \<open>variable\<close> and gives
  \<open>Inr False\<close> where the source returns \<^verbatim>\<open>False\<close>, \<open>Inr True\<close> when it runs to its end.
\<close>

fun consistent_neighbours ::
  "crossword \<Rightarrow> assignment \<Rightarrow> variable \<Rightarrow> variable list \<Rightarrow> py_error + bool"
where
  "consistent_neighbours cw a variable [] = Inr True"
| "consistent_neighbours cw a variable (neighbour # ns) =
     (case overlaps_get cw (variable, neighbour) of
        Inl e \<Rightarrow> Inl e
      | Inr None \<Rightarrow> consistent_neighbours cw a variable ns
      | Inr (Some (oi, oj)) \<Rightarrow>
          (case map_of a neighbour of
             None \<Rightarrow> consistent_neighbours cw a variable ns
           | Some wn \<Rightarrow>
               (case map_of a variable of
                  None \<Rightarrow> Inl KeyError
                | Some wv \<Rightarrow>
                    if length wv \<le> oi then Inl IndexError
                    else if length wn \<le> oj then Inl IndexError
                    else if wv ! oi \<noteq> wn ! oj then Inr False
                    else consistent_neighbours cw a variable ns)))"

fun consistent_loop :: "crossword \<Rightarrow> assignment \<Rightarrow> variable list \<Rightarrow> py_error + bool" where
  "consistent_loop cw a [] = Inr True"
| "consistent_loop cw a (variable # vs) =
     (case map_of a variable of
        None \<Rightarrow> Inl KeyError
      | Some w \<Rightarrow>
          if length w \<noteq> var_length variable then Inr False
          else
            (case consistent_neighbours cw a variable (neighbors cw variable) of
               Inl e \<Rightarrow> Inl e
             | Inr ok \<Rightarrow> if ok then consistent_loop cw a vs else Inr False))"

definition consistent :: "crossword \<Rightarrow> assignment \<Rightarrow> py_error + bool" where
  "consistent cw a = consistent_loop cw a (map fst a)"

text \<open>
  \<^verbatim>\<open>order_domain_values\<close>. \<open>count_choices\<close> is the loop over the neighbour's words
  (the guard on \<^verbatim>\<open>len(value)\<close> has made \<^verbatim>\<open>value[overlap[0]]\<close> safe before it runs),
  \<open>count_neighbours\<close> the loop over the neighbours, \<open>count_values\<close> the loop over the
  domain, which fills \<^verbatim>\<open>removed_choices_dict\<close>.
\<close>

fun count_choices :: "word \<Rightarrow> nat \<Rightarrow> nat \<Rightarrow> word list \<Rightarrow> word list \<Rightarrow> py_error + word list" where
  "count_choices val oi oj [] removed_choices = Inr removed_choices"
| "count_choices val oi oj (choice # cs) removed_choices =
     (if choice = val then count_choices val oi oj cs (removed_choices @ [choice])
      else if length choice \<le> oj then Inl IndexError
      else if val ! oi \<noteq> choice ! oj then count_choices val oi oj cs (removed_choices @ [choice])
      else count_choices val oi oj cs removed_choices)"

fun count_neighbours ::
  "crossword \<Rightarrow> domains \<Rightarrow> variable \<Rightarrow> assignment \<Rightarrow> word \<Rightarrow> variable list \<Rightarrow> word list \<Rightarrow>
   py_error + word list"
where
  "count_neighbours cw ds var a val [] removed_choices = Inr removed_choices"
| "count_neighbours cw ds var a val (neighbour # ns) removed_choices =
     (if neighbour \<in> set (map fst a) then count_neighbours cw ds var a val ns removed_choices
      else
        (case overlaps_get cw (var, neighbour) of
           Inl e \<Rightarrow> Inl e
         | Inr None \<Rightarrow> Inl TypeError
         | Inr (Some (oi, oj)) \<Rightarrow>
             if length val < oi + 1 then count_neighbours cw ds var a val ns removed_choices
             else
               (case domains_get cw ds neighbour of
                  Inl e \<Rightarrow> Inl e
                | Inr choices \<Rightarrow>
                    (case count_choices val oi oj choices removed_choices of
                       Inl e \<Rightarrow> Inl e
                     | Inr removed_choices' \<Rightarrow>
                         count_neighbours cw ds var a val ns removed_choices'))))"

fun count_values ::
  "crossword \<Rightarrow> domains \<Rightarrow> variable \<Rightarrow> assignment \<Rightarrow> word list \<Rightarrow> (word \<times> nat) list \<Rightarrow>
   py_error + (word \<times> nat) list"
where
  "count_values cw ds var a [] removed_choices_dict = Inr removed_choices_dict"
| "count_values cw ds var a (val # vs) removed_choices_dict =
     (case count_neighbours cw ds var a val (neighbors cw var) [] of
        Inl e \<Rightarrow> Inl e
      | Inr removed_choices \<Rightarrow>
          count_values cw ds var a vs
            (AList.update val (length removed_choices) removed_choices_dict))"

text \<open>
  The sort key \<^verbatim>\<open>removed_choices_dict[x]\<close>; every word of the domain has its entry
  when the list is sorted. \<^verbatim>\<open>list.sort\<close> is stable, as \<open>sort_key\<close> is.
\<close>

definition removed_count :: "(word \<times> nat) list \<Rightarrow> word \<Rightarrow> nat" where
  "removed_count removed_choices_dict x =
     (case map_of removed_choices_dict x of None \<Rightarrow> 0 | Some n \<Rightarrow> n)"

definition order_domain_values ::
  "crossword \<Rightarrow> domains \<Rightarrow> variable \<Rightarrow> assignment \<Rightarrow> py_error + word list"
where
  "order_domain_values cw ds var a =
     (case domains_get cw ds var of
        Inl e \<Rightarrow> Inl e
      | Inr domain \<Rightarrow>
          (case count_values cw ds var a domain [] of
             Inl e \<Rightarrow> Inl e
           | Inr removed_choices_dict \<Rightarrow>
               Inr (sort_key (removed_count removed_choices_dict) domain)))"

text \<open>
  \<^verbatim>\<open>select_unassigned_variable\<close>; \<open>None\<close> is Python's \<^verbatim>\<open>None\<close>. Both sorts are
  ascending and stable, and the first element is returned.
\<close>

definition select_unassigned_variable :: "crossword \<Rightarrow> domains \<Rightarrow> assignment \<Rightarrow> variable option" where
  "select_unassigned_variable cw ds a =
     (let unassigned = filter (\<lambda>variable. variable \<notin> set (map fst a)) (variables cw) in
      if length unassigned = 1 then Some (unassigned ! 0)
      else if length unassigned = 0 then None
      else
        (let sorted = sort_key (\<lambda>x. length (ds x)) unassigned;
             min_domain_length = length (ds (sorted ! 0)) in
         if length (ds (sorted ! 1)) \<noteq> min_domain_length then Some (sorted ! 0)
         else
           (let tied = filter (\<lambda>variable. length (ds variable) = min_domain_length) sorted;
                tied' = sort_key (\<lambda>x. length (neighbors cw x)) tied
            in Some (tied' ! 0))))"

text \<open>
  What \<^verbatim>\<open>backtrack\<close> returns: the assignment dictionary, or the string
  \<^verbatim>\<open>"failure"\<close>. \<open>PyNone\<close> is the value \<^verbatim>\<open>main\<close> compares the result with.
\<close>

datatype py_value = PyDict assignment | PyStr string | PyNone

text \<open>
  \<^verbatim>\<open>backtrack\<close>, with the dictionary \<open>assignment\<close> as state: a call gives the value
  returned and the dictionary as the call leaves it. \<open>try_words\<close> is the loop
  \<^verbatim>\<open>for word in self.domains[variable]\<close>. The first argument bounds the depth of the
  recursion; \<open>None\<close> says that the bound was reached. A variable selected as \<^verbatim>\<open>None\<close>
  makes \<^verbatim>\<open>self.domains[variable]\<close> a \<^verbatim>\<open>KeyError\<close>.
\<close>

fun backtrack ::
  "nat \<Rightarrow> crossword \<Rightarrow> domains \<Rightarrow> assignment \<Rightarrow> (py_error + (py_value \<times> assignment)) option"
and try_words ::
  "nat \<Rightarrow> crossword \<Rightarrow> domains \<Rightarrow> variable \<Rightarrow> word list \<Rightarrow> assignment \<Rightarrow>
   (py_error + (py_value \<times> assignment)) option"
where
  "backtrack 0 cw ds a = None"
| "backtrack (Suc n) cw ds a =
     (if assignment_complete cw a then Some (Inr (PyDict a, a))
      else
        (case select_unassigned_variable cw ds a of
           None \<Rightarrow> Some (Inl KeyError)
         | Some variable \<Rightarrow> try_words n cw ds variable (ds variable) a))"
| "try_words n cw ds variable [] a = Some (Inr (PyStr ''failure'', a))"
| "try_words n cw ds variable (word # ws) a =
     (let a1 = AList.update variable word a in
      case consistent cw a1 of
        Inl e \<Rightarrow> Some (Inl e)
      | Inr ok \<Rightarrow>
          if ok then
            (case backtrack n cw ds a1 of
               None \<Rightarrow> None
             | Some (Inl e) \<Rightarrow> Some (Inl e)
             | Some (Inr (result, a2)) \<Rightarrow>
                 if result \<noteq> PyStr ''failure'' then Some (Inr (result, a2))
                 else
                   (case assignment_pop variable a2 of
                      Inl e \<Rightarrow> Some (Inl e)
                    | Inr a3 \<Rightarrow> try_words n cw ds variable ws a3))
          else
            (case assignment_pop variable a1 of
               Inl e \<Rightarrow> Some (Inl e)
             | Inr a3 \<Rightarrow> try_words n cw ds variable ws a3))"

text \<open>
  \<^verbatim>\<open>solve\<close>: node consistency, \<^verbatim>\<open>ac3\<close> (its boolean is dropped), then
  \<^verbatim>\<open>backtrack(dict())\<close>.
\<close>

definition solve :: "nat \<Rightarrow> crossword \<Rightarrow> domains \<Rightarrow> (py_error + py_value) option" where
  "solve fuel cw ds =
     (case ac3 cw (enforce_node_consistency cw ds) None of
        Inl e \<Rightarrow> Some (Inl e)
      | Inr (arc_consistent, ds', arcs) \<Rightarrow>
          (case backtrack fuel cw ds' [] of
             None \<Rightarrow> None
           | Some (Inl e) \<Rightarrow> Some (Inl e)
           | Some (Inr (result, a)) \<Rightarrow> Some (Inr result)))"

text \<open>The test of \<^verbatim>\<open>main\<close> on the value of \<^verbatim>\<open>solve\<close>: \<^verbatim>\<open>if assignment is None\<close>.\<close>

definition main_no_solution :: "py_value \<Rightarrow> bool" where
  "main_no_solution assignment = (assignment = PyNone)"

section \<open>Small crosswords\<close>

text \<open>Two rows of two cells that share no cell, and a list of two words.\<close>

definition row0 :: variable where
  "row0 = Variable 0 0 ACROSS 2"

definition row2 :: variable where
  "row2 = Variable 2 0 ACROSS 2"

definition two_rows :: crossword where
  "two_rows = \<lparr>variables = [row0, row2], words = [''AB'', ''CD''], overlaps = (\<lambda>pair. None)\<rparr>"

text \<open>
  A row of three cells crossed by a column of three cells at its last cell: the third
  letter of \<open>across\<close> is the first letter of \<open>down\<close>.
\<close>

definition across :: variable where
  "across = Variable 0 0 ACROSS 3"

definition down :: variable where
  "down = Variable 0 2 DOWN 3"

definition corner_overlaps :: "variable \<times> variable \<Rightarrow> overlap" where
  "corner_overlaps pair =
     (if pair = (across, down) then Some (2, 0)
      else if pair = (down, across) then Some (0, 2)
      else None)"

definition corner :: "word list \<Rightarrow> crossword" where
  "corner ws = \<lparr>variables = [across, down], words = ws, overlaps = corner_overlaps\<rparr>"

text \<open>
  A row of three cells with a column of three cells hanging from each end: \<open>lintel\<close> has
  two neighbours, \<open>west\<close> and \<open>east\<close> have one each.
\<close>

definition lintel :: variable where
  "lintel = Variable 0 0 ACROSS 3"

definition west :: variable where
  "west = Variable 0 0 DOWN 3"

definition east :: variable where
  "east = Variable 0 2 DOWN 3"

definition arch_overlaps :: "variable \<times> variable \<Rightarrow> overlap" where
  "arch_overlaps pair =
     (if pair = (lintel, west) then Some (0, 0)
      else if pair = (west, lintel) then Some (0, 0)
      else if pair = (lintel, east) then Some (2, 0)
      else if pair = (east, lintel) then Some (0, 2)
      else None)"

definition arch :: crossword where
  "arch = \<lparr>variables = [lintel, west, east], words = [''TOT'', ''TAT'', ''ANT''], overlaps = arch_overlaps\<rparr>"

text \<open>
  The arch with a shorter second column: \<open>post\<close> has two cells, and the word list has
  one word of two letters. \<open>porch_domains\<close> is the domain store after node consistency.
\<close>

definition post :: variable where
  "post = Variable 0 2 DOWN 2"

definition porch_overlaps :: "variable \<times> variable \<Rightarrow> overlap" where
  "porch_overlaps pair =
     (if pair = (lintel, west) then Some (0, 0)
      else if pair = (west, lintel) then Some (0, 0)
      else if pair = (lintel, post) then Some (2, 0)
      else if pair = (post, lintel) then Some (0, 2)
      else None)"

definition porch :: crossword where
  "porch = \<lparr>variables = [lintel, west, post], words = [''TOT'', ''TAT'', ''ANT'', ''AB''],
            overlaps = porch_overlaps\<rparr>"

definition porch_domains :: domains where
  "porch_domains = enforce_node_consistency porch (init_domains porch)"

text \<open>
  Five words for the corner, and the domain store that node and arc consistency leave
  from them: \<^verbatim>\<open>ANT\<close> cannot stand in the column, since no word ends with \<^verbatim>\<open>A\<close>.
\<close>

definition five_words :: "word list" where
  "five_words = [''TAN'', ''NET'', ''ANT'', ''TEN'', ''TIN'']"

definition corner_domains :: domains where
  "corner_domains v = (if v = down then [''TAN'', ''NET'', ''TEN'', ''TIN''] else five_words)"

section \<open>Notions used in the proofs\<close>

text \<open>
  The number of variables of the crossword without a word: the depth the recursion can
  still reach. A bound above it is never reached, so every call returns.
\<close>

definition unassigned_count :: "crossword \<Rightarrow> assignment \<Rightarrow> nat" where
  "unassigned_count cw a = length (filter (\<lambda>variable. variable \<notin> set (map fst a)) (variables cw))"

text \<open>
  The overlap table is symmetric: \<open>overlap(y, x)\<close> is \<open>overlap(x, y)\<close> with its two
  indices exchanged.
\<close>

definition overlaps_symmetric :: "crossword \<Rightarrow> bool" where
  "overlaps_symmetric cw =
     list_all (\<lambda>x. list_all (\<lambda>y. overlaps cw (y, x) = map_option prod.swap (overlaps cw (x, y)))
                 (variables cw)) (variables cw)"

text \<open>
  An arc \<open>(x, y)\<close> is stable in a domain store when \<^verbatim>\<open>revise(x, y)\<close> would return
  without removing a word: every word of \<open>x\<close> is supported in \<open>y\<close> and no index is
  out of range.
\<close>

definition stable_arc :: "crossword \<Rightarrow> domains \<Rightarrow> variable \<times> variable \<Rightarrow> bool" where
  "stable_arc cw ds arc =
     (case overlaps cw arc of
        None \<Rightarrow> True
      | Some (i, j) \<Rightarrow>
          ds (fst arc) = [] \<or>
          (list_all (\<lambda>X. i < length X \<and> supported i j (ds (snd arc)) X) (ds (fst arc)) \<and>
           list_all (\<lambda>Y. j < length Y) (ds (snd arc))))"

text \<open>
  The invariant of the loop: every arc of the crossword is in the list or stable.
\<close>

definition arcs_covered :: "crossword \<Rightarrow> domains \<Rightarrow> (variable \<times> variable) list \<Rightarrow> bool" where
  "arcs_covered cw ds arcs =
     list_all (\<lambda>arc. arc \<in> set arcs \<or> stable_arc cw ds arc) (initial_arcs cw)"

text \<open>
  The keys of an assignment are distinct variables of the crossword; a value returned by
  the search is found when it is the assignment itself, complete and with such keys.
\<close>

definition assigns_variables :: "crossword \<Rightarrow> assignment \<Rightarrow> bool" where
  "assigns_variables cw a = (distinct (map fst a) \<and> set (map fst a) \<subseteq> set (variables cw))"

definition search_found :: "crossword \<Rightarrow> py_value \<Rightarrow> assignment \<Rightarrow> bool" where
  "search_found cw res a = (res = PyDict a \<and> assignment_complete cw a \<and> assigns_variables cw a)"

section \<open>The search and its heuristics on these crosswords\<close>

text \<open>
  Claim C1 says that whatever \<^verbatim>\<open>solve\<close> returns, short of failure, is complete and
  consistent and uses no word for two variables. On the two rows \<^verbatim>\<open>solve\<close> returns
  an assignment that gives the word \<^verbatim>\<open>AB\<close> to both rows, although \<^verbatim>\<open>CD\<close> was there
  for the second: nothing in \<^verbatim>\<open>consistent\<close> compares the words of two variables.
\<close>

theorem solve_repeats_a_word:
  "solve 3 two_rows (init_domains two_rows) = Some (Inr (PyDict [(row0, ''AB''), (row2, ''AB'')]))
   \<and> row0 \<noteq> row2"
  by code_simp

text \<open>
  Claim C2 says that \<^verbatim>\<open>consistent\<close> is true exactly when the lengths fit, the
  overlaps agree and no two variables carry the same word. The assignment of \<^verbatim>\<open>AB\<close>
  to both rows is accepted.
\<close>

theorem consistent_accepts_repeated_word:
  "consistent two_rows [(row0, ''AB''), (row2, ''AB'')] = Inr True \<and> row0 \<noteq> row2"
  by code_simp

text \<open>
  Claim C3 says that the exhausted search is reported by a tagged value, not by a
  string or a null, which every caller can tell from an assignment. With the words
  \<^verbatim>\<open>CAT\<close> and \<^verbatim>\<open>DOG\<close> the corner has no solution; \<^verbatim>\<open>solve\<close> returns the string
  \<^verbatim>\<open>"failure"\<close>, and the test of \<^verbatim>\<open>main\<close>, written for \<^verbatim>\<open>None\<close>, does not
  recognise it.
\<close>

theorem solve_failure_is_a_string:
  "solve 3 (corner [''CAT'', ''DOG'']) (init_domains (corner [''CAT'', ''DOG'']))
     = Some (Inr (PyStr ''failure''))
   \<and> main_no_solution (PyStr ''failure'') = False"
  by code_simp

text \<open>
  Claim C4 says that among the unassigned variables with the fewest remaining words
  \<^verbatim>\<open>select_unassigned_variable\<close> returns one with the most neighbours. On the arch
  all three domains have three words; \<open>lintel\<close> has two neighbours, and the function
  returns \<open>west\<close>, which has one: the tied variables are sorted by ascending degree and
  the first is taken.
\<close>

theorem select_takes_lowest_degree:
  "select_unassigned_variable arch (init_domains arch) [] = Some west
   \<and> map (\<lambda>v. length (init_domains arch v)) [lintel, west, east] = [3, 3, 3]
   \<and> map (\<lambda>v. length (neighbors arch v)) [lintel, west, east] = [2, 1, 1]"
  by code_simp

text \<open>
  Claim C5 says that \<^verbatim>\<open>backtrack\<close> tries the words of the selected variable in the
  order \<^verbatim>\<open>order_domain_values\<close> gives. \<open>corner_domains\<close> is the domain store
  that node and arc consistency leave on the corner with \<open>five_words\<close>. The
  search selects \<open>down\<close>, whose least constraining word is \<^verbatim>\<open>NET\<close>; it tries
  \<^verbatim>\<open>TAN\<close> first, the first word of the domain, and returns the assignment built on
  it. Had the loop run over the ordered list, the result would be the one built on
  \<^verbatim>\<open>NET\<close>.
\<close>

theorem backtrack_tries_domain_order:
  "(case ac3 (corner five_words)
           (enforce_node_consistency (corner five_words) (init_domains (corner five_words))) None
    of Inl e \<Rightarrow> [] | Inr (b, ds, arcs) \<Rightarrow> map ds [across, down])
     = map corner_domains [across, down]
   \<and> select_unassigned_variable (corner five_words) corner_domains [] = Some down
   \<and> order_domain_values (corner five_words) corner_domains down []
       = Inr [''NET'', ''TAN'', ''TEN'', ''TIN'']
   \<and> backtrack 3 (corner five_words) corner_domains []
       = Some (Inr (PyDict [(down, ''TAN''), (across, ''NET'')],
                    [(down, ''TAN''), (across, ''NET'')]))
   \<and> try_words 2 (corner five_words) corner_domains down [''NET'', ''TAN'', ''TEN'', ''TIN''] []
       = Some (Inr (PyDict [(down, ''NET''), (across, ''TAN'')],
                    [(down, ''NET''), (across, ''TAN'')]))"
  by code_simp

section \<open>What \<^verbatim>\<open>revise\<close> does\<close>

lemma revise_no_overlap:
  "x \<in> set (variables cw) \<Longrightarrow> y \<in> set (variables cw) \<Longrightarrow> x \<noteq> y \<Longrightarrow>
   overlaps cw (x, y) = None \<Longrightarrow> revise cw ds x y = Inr (False, ds)"
  by (simp add: revise_def overlaps_get_def)

lemma revise_returns:
  assumes "x \<in> set (variables cw)" "y \<in> set (variables cw)" "x \<noteq> y"
    and "overlaps cw (x, y) = Some (i, j)"
    and "\<forall>X\<in>set (ds x). i < length X" "\<forall>Y\<in>set (ds y). j < length Y"
  shows "\<exists>revised ds'. revise cw ds x y = Inr (revised, ds')"
proof -
  from revise_loop_safe [OF assms(5,6)] obtain r dx where
    "revise_loop i j (ds y) (ds x) (ds x) False = Inr (r, dx)" by blast
  with assms(1-4) show ?thesis by (simp add: revise_def overlaps_get_def)
qed

lemma length_filter_less_iff: "(length (filter P xs) < length xs) = (\<exists>x\<in>set xs. \<not> P x)"
  by (induction xs) (auto simp: less_Suc_eq_le)

text \<open>
  Claim C6: for two distinct variables of the crossword, \<^verbatim>\<open>revise(x, y)\<close> without
  an overlap returns false and changes no domain; with the overlap \<open>(i, j)\<close>, on domains
  whose words reach these indices, it returns, keeps in the domain of \<open>x\<close> exactly the
  words \<open>X\<close> for which some \<open>Y\<close> in the domain of \<open>y\<close> has \<open>X \<noteq> Y\<close> and
  \<open>X[i] = Y[j]\<close>, leaves every other domain as it was, and returns true exactly when
  the domain of \<open>x\<close> has lost a word.
\<close>

theorem revise_removes_unsupported:
  assumes "x \<in> set (variables cw)" "y \<in> set (variables cw)" "x \<noteq> y"
  shows "(overlaps cw (x, y) = None \<longrightarrow> revise cw ds x y = Inr (False, ds)) \<and>
         (\<forall>i j. overlaps cw (x, y) = Some (i, j) \<and>
                (\<forall>X\<in>set (ds x). i < length X) \<and> (\<forall>Y\<in>set (ds y). j < length Y) \<longrightarrow>
            (\<exists>revised ds'. revise cw ds x y = Inr (revised, ds') \<and>
               ds' x = filter (\<lambda>X. \<exists>Y\<in>set (ds y). X \<noteq> Y \<and> X ! i = Y ! j) (ds x) \<and>
               (\<forall>v. v \<noteq> x \<longrightarrow> ds' v = ds v) \<and>
               revised = (length (ds' x) < length (ds x))))"
proof (intro conjI allI impI)
  assume "overlaps cw (x, y) = None"
  with assms show "revise cw ds x y = Inr (False, ds)" by (rule revise_no_overlap)
next
  fix i j
  assume h: "overlaps cw (x, y) = Some (i, j) \<and>
             (\<forall>X\<in>set (ds x). i < length X) \<and> (\<forall>Y\<in>set (ds y). j < length Y)"
  with assms revise_returns [of x cw y i j ds] obtain revised ds' where
    r: "revise cw ds x y = Inr (revised, ds')" by blast
  have s: "supported i j (ds y) = (\<lambda>X. \<exists>Y\<in>set (ds y). X \<noteq> Y \<and> X ! i = Y ! j)"
    by (auto simp: supported_def fun_eq_iff)
  from revise_Inr [OF r] h have
    d: "ds' = ds(x := filter (supported i j (ds y)) (ds x))" and
    v: "revised = (\<exists>X\<in>set (ds x). \<not> supported i j (ds y) X)"
    by auto
  from d have "ds' x = filter (\<lambda>X. \<exists>Y\<in>set (ds y). X \<noteq> Y \<and> X ! i = Y ! j) (ds x)"
    by (simp add: s)
  moreover from d have "\<forall>v. v \<noteq> x \<longrightarrow> ds' v = ds v" by simp
  moreover from d v have "revised = (length (ds' x) < length (ds x))"
    by (simp add: length_filter_less_iff)
  ultimately show "\<exists>revised ds'. revise cw ds x y = Inr (revised, ds') \<and>
               ds' x = filter (\<lambda>X. \<exists>Y\<in>set (ds y). X \<noteq> Y \<and> X ! i = Y ! j) (ds x) \<and>
               (\<forall>v. v \<noteq> x \<longrightarrow> ds' v = ds v) \<and>
               revised = (length (ds' x) < length (ds x))"
    using r by blast
qed

theorem revise_removes_unsupported_witness:
  "\<exists>revised ds'.
     revise (corner five_words) (init_domains (corner five_words)) down across = Inr (revised, ds') \<and>
     ds' down = [''TAN'', ''NET'', ''TEN'', ''TIN''] \<and>
     ds' across = five_words \<and> revised"
proof -
  have m: "down \<in> set (variables (corner five_words))" "across \<in> set (variables (corner five_words))"
    "down \<noteq> across"
    by (simp_all add: corner_def down_def across_def)
  have o: "overlaps (corner five_words) (down, across) = Some (0, 2)"
    by (simp add: corner_def corner_overlaps_def down_def across_def)
  have l: "\<forall>X\<in>set (init_domains (corner five_words) down). 0 < length X"
    "\<forall>Y\<in>set (init_domains (corner five_words) across). 2 < length Y"
    by (simp_all add: init_domains_def corner_def five_words_def)
  from revise_removes_unsupported [OF m, of "init_domains (corner five_words)"] o l
  obtain revised ds' where
    r: "revise (corner five_words) (init_domains (corner five_words)) down across = Inr (revised, ds')"
    and d: "ds' down = filter (\<lambda>X. \<exists>Y\<in>set (init_domains (corner five_words) across). X \<noteq> Y \<and> X ! 0 = Y ! 2)
              (init_domains (corner five_words) down)"
    and f: "\<forall>v. v \<noteq> down \<longrightarrow> ds' v = init_domains (corner five_words) v"
    and b: "revised = (length (ds' down) < length (init_domains (corner five_words) down))"
    by blast
  from d have d': "ds' down = [''TAN'', ''NET'', ''TEN'', ''TIN'']"
    by (simp add: init_domains_def corner_def five_words_def)
  from f m have "ds' across = five_words"
    by (simp add: init_domains_def corner_def)
  moreover from b d' have revised
    by (simp add: init_domains_def corner_def five_words_def)
  ultimately show ?thesis using r d' by blast
qed

section \<open>The search undoes its bindings and returns\<close>

text \<open>A variable that is selected is a variable of the crossword without a word.\<close>

lemma select_unassigned_variable_Some:
  assumes "select_unassigned_variable cw ds a = Some v"
  shows "v \<in> set (variables cw) \<and> v \<notin> set (map fst a)"
proof -
  define unassigned where "unassigned = filter (\<lambda>variable. variable \<notin> set (map fst a)) (variables cw)"
  define sorted where "sorted = sort_key (\<lambda>x. length (ds x)) unassigned"
  define tied where "tied = filter (\<lambda>variable. length (ds variable) = length (ds (sorted ! 0))) sorted"
  define tied' where "tied' = sort_key (\<lambda>x. length (neighbors cw x)) tied"
  have s: "set sorted = set unassigned" "length sorted = length unassigned"
    by (simp_all add: sorted_def)
  have "v \<in> set unassigned"
  proof (cases "length unassigned = 1")
    case True
    with assms have "v = unassigned ! 0"
      by (simp add: select_unassigned_variable_def unassigned_def)
    with True show ?thesis by (metis nth_mem zero_less_one)
  next
    case False
    with assms have n: "length unassigned \<noteq> 0"
      by (auto simp: select_unassigned_variable_def unassigned_def Let_def split: if_splits)
    then have z: "sorted ! 0 \<in> set sorted" using s by (metis nth_mem neq0_conv)
    then have "sorted ! 0 \<in> set tied'" by (simp add: tied'_def tied_def)
    then have "tied' \<noteq> []" by auto
    moreover have "set tied' \<subseteq> set sorted"
      by (auto simp: tied'_def tied_def)
    ultimately have t: "tied' ! 0 \<in> set sorted"
      by (metis length_greater_0_conv nth_mem subsetD)
    from assms False n have "v = sorted ! 0 \<or> v = tied' ! 0"
      unfolding select_unassigned_variable_def Let_def
        unassigned_def [symmetric] sorted_def [symmetric] tied_def [symmetric] tied'_def [symmetric]
      by (auto split: if_splits)
    with z t s show ?thesis by auto
  qed
  then show ?thesis by (simp add: unassigned_def)
qed

lemma pop_after_update:
  "v \<notin> set (map fst a) \<Longrightarrow> assignment_pop v (AList.update v w a) = Inr a"
  by (simp add: assignment_pop_def update_conv' delete_update_same)

lemma failure_restores:
  "(backtrack n cw ds a = Some (Inr (PyStr ''failure'', a')) \<longrightarrow> a' = a) \<and>
   (\<forall>variable ws. variable \<notin> set (map fst a) \<longrightarrow>
      try_words n cw ds variable ws a = Some (Inr (PyStr ''failure'', a')) \<longrightarrow> a' = a)"
proof (induction n arbitrary: a a')
  case 0
  have "try_words 0 cw ds variable ws a = Some (Inr (PyStr ''failure'', a')) \<Longrightarrow> variable \<notin> set (map fst a) \<Longrightarrow> a' = a"
    for variable ws
  proof (induction ws)
    case Nil
    then show ?case by simp
  next
    case (Cons w ws)
    then show ?case
      by (auto simp: Let_def pop_after_update split: sum.splits if_splits)
  qed
  then show ?case by auto
next
  case (Suc n)
  have t: "try_words k cw ds variable ws a = Some (Inr (PyStr ''failure'', a')) \<Longrightarrow>
           variable \<notin> set (map fst a) \<Longrightarrow>
           (\<And>b b'. backtrack k cw ds b = Some (Inr (PyStr ''failure'', b')) \<Longrightarrow> b' = b) \<Longrightarrow> a' = a"
    for variable ws k a a'
  proof (induction ws)
    case Nil
    then show ?case by simp
  next
    case (Cons w ws)
    show ?case
    proof (cases "consistent cw (AList.update variable w a)")
      case (Inl e)
      with Cons.prems(1) show ?thesis by (simp add: Let_def)
    next
      case (Inr ok)
      show ?thesis
      proof (cases ok)
        case False
        with Inr Cons.prems have "try_words k cw ds variable ws a = Some (Inr (PyStr ''failure'', a'))"
          by (simp add: Let_def pop_after_update)
        with Cons show ?thesis by blast
      next
        case True
        with Inr Cons.prems(1) obtain a2 where
          b: "backtrack k cw ds (AList.update variable w a) = Some (Inr (PyStr ''failure'', a2))"
          and r: "(case assignment_pop variable a2 of Inl e \<Rightarrow> Some (Inl e)
                    | Inr a3 \<Rightarrow> try_words k cw ds variable ws a3) = Some (Inr (PyStr ''failure'', a'))"
          by (auto simp: Let_def split: option.splits sum.splits if_splits)
        from Cons.prems(3) [OF b] have "a2 = AList.update variable w a" .
        with r Cons.prems(2) have "try_words k cw ds variable ws a = Some (Inr (PyStr ''failure'', a'))"
          by (simp add: pop_after_update)
        with Cons show ?thesis by blast
      qed
    qed
  qed
  have b: "backtrack (Suc n) cw ds a = Some (Inr (PyStr ''failure'', a')) \<Longrightarrow> a' = a" for a a'
  proof -
    assume h: "backtrack (Suc n) cw ds a = Some (Inr (PyStr ''failure'', a'))"
    then obtain v where v: "select_unassigned_variable cw ds a = Some v"
      and w: "try_words n cw ds v (ds v) a = Some (Inr (PyStr ''failure'', a'))"
      by (auto split: if_splits option.splits)
    from select_unassigned_variable_Some [OF v] have "v \<notin> set (map fst a)" by simp
    from t [OF w this] Suc.IH show "a' = a" by blast
  qed
  from t [of "Suc n" _ _ a a'] b show ?case by blast
qed


lemma unassigned_count_update:
  assumes "v \<in> set (variables cw)" "v \<notin> set (map fst a)"
  shows "unassigned_count cw (AList.update v w a) < unassigned_count cw a"
proof -
  let ?P = "\<lambda>variable. variable \<notin> set (map fst a)"
  have "filter (\<lambda>variable. variable \<notin> set (map fst (AList.update v w a))) (variables cw)
        = filter (\<lambda>variable. variable \<noteq> v) (filter ?P (variables cw))"
    using assms(2) by (auto simp: update_keys intro: filter_cong)
  moreover have "length (filter (\<lambda>variable. variable \<noteq> v) (filter ?P (variables cw)))
        < length (filter ?P (variables cw))"
    unfolding length_filter_less_iff using assms by auto
  ultimately show ?thesis by (simp add: unassigned_count_def)
qed

lemma try_words_returns:
  assumes "\<And>b. unassigned_count cw b < unassigned_count cw a \<Longrightarrow> backtrack n cw ds b \<noteq> None"
    and "variable \<in> set (variables cw)" "variable \<notin> set (map fst a)"
  shows "try_words n cw ds variable ws a \<noteq> None"
proof (induction ws)
  case Nil
  then show ?case by simp
next
  case (Cons w ws)
  let ?a1 = "AList.update variable w a"
  have p: "assignment_pop variable ?a1 = Inr a" using assms(3) by (rule pop_after_update)
  show ?case
  proof (cases "consistent cw ?a1")
    case (Inl e)
    then show ?thesis by (simp add: Let_def)
  next
    case (Inr ok)
    show ?thesis
    proof (cases ok)
      case False
      with Inr p Cons show ?thesis by (simp add: Let_def)
    next
      case True
      from assms unassigned_count_update obtain r where r: "backtrack n cw ds ?a1 = Some r"
        by (metis not_Some_eq)
      show ?thesis
      proof (cases r)
        case (Inl e)
        with Inr True r show ?thesis by (simp add: Let_def)
      next
        case (Inr res)
        obtain result a2 where res: "res = (result, a2)" by (cases res)
        show ?thesis
        proof (cases "result = PyStr ''failure''")
          case False
          with \<open>consistent cw ?a1 = Inr ok\<close> True r Inr res show ?thesis by (simp add: Let_def)
        next
          case f: True
          with r Inr res failure_restores [of n cw ds ?a1 a2] have "a2 = ?a1" by simp
          with \<open>consistent cw ?a1 = Inr ok\<close> True r Inr res f p Cons show ?thesis
            by (simp add: Let_def)
        qed
      qed
    qed
  qed
qed

lemma backtrack_returns:
  "unassigned_count cw a < n \<Longrightarrow> backtrack n cw ds a \<noteq> None"
proof (induction n arbitrary: a)
  case 0
  then show ?case by simp
next
  case (Suc n)
  show ?case
  proof (cases "select_unassigned_variable cw ds a")
    case None
    then show ?thesis by simp
  next
    case (Some v)
    from select_unassigned_variable_Some [OF Some]
    have v: "v \<in> set (variables cw)" "v \<notin> set (map fst a)" by simp_all
    have "try_words n cw ds v (ds v) a \<noteq> None"
    proof (rule try_words_returns [OF _ v])
      fix b assume "unassigned_count cw b < unassigned_count cw a"
      with Suc.prems have "unassigned_count cw b < n" by simp
      then show "backtrack n cw ds b \<noteq> None" by (rule Suc.IH)
    qed
    with Some show ?thesis by simp
  qed
qed

lemma solve_returns: "length (variables cw) < fuel \<Longrightarrow> solve fuel cw ds \<noteq> None"
proof -
  assume "length (variables cw) < fuel"
  then have "unassigned_count cw [] < fuel" by (simp add: unassigned_count_def)
  then have b: "backtrack fuel cw ds' [] \<noteq> None" for ds' by (rule backtrack_returns)
  show ?thesis
  proof (cases "ac3 cw (enforce_node_consistency cw ds) None")
    case (Inl e)
    then show ?thesis by (simp add: solve_def)
  next
    case (Inr r)
    obtain c ds' arcs where "r = (c, ds', arcs)" by (cases r)
    with Inr b [of ds'] show ?thesis
      by (cases "backtrack fuel cw ds' []") (auto simp: solve_def split: sum.splits)
  qed
qed

text \<open>
  Claim C8: when \<^verbatim>\<open>backtrack(assignment)\<close> returns the failure value, the dictionary
  \<open>assignment\<close> is on return what it was at entry: every binding the call and the calls
  below it inserted has been removed.
\<close>

theorem backtrack_failure_restores_assignment:
  "backtrack n cw ds a = Some (Inr (PyStr ''failure'', a')) \<Longrightarrow> a' = a"
  using failure_restores by blast

theorem backtrack_failure_restores_assignment_witness:
  "backtrack 2 (corner [''CAT'', ''DOG'']) (init_domains (corner [''CAT'', ''DOG''])) [(across, ''CAT'')]
     = Some (Inr (PyStr ''failure'', [(across, ''CAT'')]))
   \<and> unassigned_count (corner [''CAT'', ''DOG'']) [(across, ''CAT'')] = 1"
proof -
  have e: "backtrack 2 (corner [''CAT'', ''DOG'']) (init_domains (corner [''CAT'', ''DOG''])) [(across, ''CAT'')]
     = Some (Inr (PyStr ''failure'', [(across, ''CAT'')]))"
    by code_simp
  have u: "unassigned_count (corner [''CAT'', ''DOG'']) [(across, ''CAT'')] = 1"
    by code_simp
  from backtrack_failure_restores_assignment [OF e] e u show ?thesis by simp
qed

section \<open>What a returned assignment satisfies\<close>

text \<open>
  When \<^verbatim>\<open>consistent\<close> returns true, every assigned word has the length of its
  variable and agrees with the word of every assigned neighbour at their overlap.
\<close>

lemma consistent_neighbours_True:
  "consistent_neighbours cw a v ns = Inr True \<Longrightarrow> map_of a v = Some w \<Longrightarrow> n \<in> set ns \<Longrightarrow>
   overlaps cw (v, n) = Some (oi, oj) \<Longrightarrow> map_of a n = Some wn \<Longrightarrow>
   oi < length w \<and> oj < length wn \<and> w ! oi = wn ! oj"
proof (induction ns)
  case Nil
  then show ?case by simp
next
  case (Cons m ns)
  from Cons.prems(1) obtain ov where g: "overlaps_get cw (v, m) = Inr ov"
    by (auto split: sum.splits)
  then have ov: "ov = overlaps cw (v, m)"
    by (auto simp: overlaps_get_def split: if_splits)
  show ?case
  proof (cases "n = m")
    case True
    with Cons.prems g ov show ?thesis
      by (auto split: if_splits)
  next
    case False
    from Cons.prems(1) g have "consistent_neighbours cw a v ns = Inr True"
      by (auto split: option.splits if_splits)
    with Cons False show ?thesis by auto
  qed
qed

lemma consistent_loop_True:
  "consistent_loop cw a vs = Inr True \<Longrightarrow> v \<in> set vs \<Longrightarrow>
   \<exists>w. map_of a v = Some w \<and> length w = var_length v \<and>
       consistent_neighbours cw a v (neighbors cw v) = Inr True"
proof (induction vs)
  case Nil
  then show ?case by simp
next
  case (Cons u vs)
  from Cons.prems(1) obtain w where w: "map_of a u = Some w" "length w = var_length u"
    and n: "consistent_neighbours cw a u (neighbors cw u) = Inr True"
    and r: "consistent_loop cw a vs = Inr True"
    by (auto split: option.splits if_splits sum.splits)
  show ?case
  proof (cases "v = u")
    case True
    with w n show ?thesis by simp
  next
    case False
    with Cons r show ?thesis by simp
  qed
qed

lemma consistent_True:
  assumes "consistent cw a = Inr True" "map_of a v = Some w"
  shows "length w = var_length v"
    and "n \<in> set (neighbors cw v) \<Longrightarrow> overlaps cw (v, n) = Some (oi, oj) \<Longrightarrow>
         map_of a n = Some wn \<Longrightarrow> oi < length w \<and> oj < length wn \<and> w ! oi = wn ! oj"
proof -
  from assms(2) have "v \<in> set (map fst a)" by (metis map_of_eq_None_iff option.distinct(1) set_map)
  with assms(1) consistent_loop_True [of cw a "map fst a" v] assms(2)
  have l: "length w = var_length v"
    and c: "consistent_neighbours cw a v (neighbors cw v) = Inr True"
    by (auto simp: consistent_def)
  from l show "length w = var_length v" .
  show "n \<in> set (neighbors cw v) \<Longrightarrow> overlaps cw (v, n) = Some (oi, oj) \<Longrightarrow>
         map_of a n = Some wn \<Longrightarrow> oi < length w \<and> oj < length wn \<and> w ! oi = wn ! oj"
    using consistent_neighbours_True [OF c assms(2)] by blast
qed

text \<open>
  The search returns the string \<^verbatim>\<open>"failure"\<close> or the assignment it has built, which
  is complete and has passed \<^verbatim>\<open>consistent\<close>. So an assignment returned by
  \<^verbatim>\<open>solve\<close> gives every variable a word of its length, with agreeing overlaps; that
  no word is used twice is not among the things it has been checked for.
\<close>

lemma assigns_variables_update:
  "assigns_variables cw a \<Longrightarrow> v \<in> set (variables cw) \<Longrightarrow> assigns_variables cw (AList.update v w a)"
  by (auto simp: assigns_variables_def distinct_update update_keys)

lemma try_words_result:
  assumes "try_words k cw ds v ws a = Some (Inr (res, a'))"
    and "v \<notin> set (map fst a)" "v \<in> set (variables cw)" "assigns_variables cw a"
    and "\<And>b res b'. assigns_variables cw b \<Longrightarrow> backtrack k cw ds b = Some (Inr (res, b')) \<Longrightarrow>
           res = PyStr ''failure'' \<or> (search_found cw res b' \<and> (b' = b \<or> consistent cw b' = Inr True))"
  shows "res = PyStr ''failure'' \<or> (search_found cw res a' \<and> consistent cw a' = Inr True)"
  using assms(1)
proof (induction ws)
  case Nil
  then show ?case by simp
next
  case (Cons w ws)
  let ?a1 = "AList.update v w a"
  have p: "assignment_pop v ?a1 = Inr a" using assms(2) by (rule pop_after_update)
  have k: "assigns_variables cw ?a1" using assms(4,3) by (rule assigns_variables_update)
  show ?case
  proof (cases "consistent cw ?a1")
    case (Inl e)
    with Cons.prems show ?thesis by (simp add: Let_def)
  next
    case (Inr ok)
    show ?thesis
    proof (cases ok)
      case False
      with Inr p Cons.prems have "try_words k cw ds v ws a = Some (Inr (res, a'))"
        by (simp add: Let_def)
      then show ?thesis by (rule Cons.IH)
    next
      case True
      with Inr Cons.prems obtain result a2 where
        b: "backtrack k cw ds ?a1 = Some (Inr (result, a2))"
        by (auto simp: Let_def split: option.splits sum.splits)
      show ?thesis
      proof (cases "result = PyStr ''failure''")
        case f: True
        with b failure_restores [of k cw ds ?a1 a2] have "a2 = ?a1" by simp
        with Inr True b f p Cons.prems have "try_words k cw ds v ws a = Some (Inr (res, a'))"
          by (simp add: Let_def)
        then show ?thesis by (rule Cons.IH)
      next
        case False
        with Inr True b Cons.prems have e: "res = result" "a' = a2" by (simp_all add: Let_def)
        from assms(5) [OF k b] False
        have "search_found cw result a2 \<and> (a2 = ?a1 \<or> consistent cw a2 = Inr True)" by simp
        with Inr True e show ?thesis by auto
      qed
    qed
  qed
qed

lemma backtrack_result:
  "assigns_variables cw a \<Longrightarrow> backtrack n cw ds a = Some (Inr (res, a')) \<Longrightarrow>
   res = PyStr ''failure'' \<or> (search_found cw res a' \<and> (a' = a \<or> consistent cw a' = Inr True))"
proof (induction n arbitrary: a res a')
  case 0
  then show ?case by simp
next
  case (Suc n)
  show ?case
  proof (cases "assignment_complete cw a")
    case True
    with Suc.prems show ?thesis by (auto simp: search_found_def)
  next
    case False
    with Suc.prems(2) obtain v where v: "select_unassigned_variable cw ds a = Some v"
      and t: "try_words n cw ds v (ds v) a = Some (Inr (res, a'))"
      by (auto split: option.splits)
    from select_unassigned_variable_Some [OF v]
    have "v \<notin> set (map fst a)" "v \<in> set (variables cw)" by simp_all
    from try_words_result [OF t this Suc.prems(1)] Suc.IH show ?thesis by blast
  qed
qed

lemma complete_assigns_all:
  assumes "distinct (variables cw)" "assigns_variables cw a" "assignment_complete cw a"
  shows "set (map fst a) = set (variables cw)"
proof (rule card_subset_eq)
  show "finite (set (variables cw))" by simp
  show "set (map fst a) \<subseteq> set (variables cw)" using assms(2) by (simp add: assigns_variables_def)
  from assms(2) have "card (set (map fst a)) = length a"
    by (metis assigns_variables_def distinct_card length_map)
  with assms(1,3) show "card (set (map fst a)) = card (set (variables cw))"
    by (simp add: assignment_complete_def distinct_card)
qed

lemma solve_result:
  assumes "distinct (variables cw)" "solve fuel cw ds = Some (Inr res)"
  shows "res = PyStr ''failure'' \<or>
         (\<exists>a. res = PyDict a \<and> distinct (map fst a) \<and> set (map fst a) = set (variables cw) \<and>
              consistent cw a = Inr True)"
proof -
  from assms(2) obtain c ds' arcs a' where
    b: "backtrack fuel cw ds' [] = Some (Inr (res, a'))"
    by (auto simp: solve_def split: sum.splits option.splits prod.splits)
  have e: "assigns_variables cw []" by (simp add: assigns_variables_def)
  have c: "consistent cw [] = Inr True" by (simp add: consistent_def)
  from backtrack_result [OF e b] c
  have "res = PyStr ''failure'' \<or> (search_found cw res a' \<and> consistent cw a' = Inr True)" by auto
  then show ?thesis
  proof
    assume "res = PyStr ''failure''"
    then show ?thesis by simp
  next
    assume f: "search_found cw res a' \<and> consistent cw a' = Inr True"
    with complete_assigns_all [OF assms(1), of a'] have "set (map fst a') = set (variables cw)"
      by (simp add: search_found_def)
    with f show ?thesis by (auto simp: search_found_def assigns_variables_def)
  qed
qed

section \<open>What \<^verbatim>\<open>ac3\<close> does\<close>

text \<open>The three ways an iteration of the loop can go, for a call that returns.\<close>

lemma ac3_loop_cases:
  assumes "ac3_loop cw ds ((x, y) # arcs) = Inr (b, ds', q)"
  obtains (emptied) ds1 where "revise cw ds x y = Inr (True, ds1)" "ds1 x = []"
      "b = False" "ds' = ds1" "q = arcs"
  | (revised) ds1 where "revise cw ds x y = Inr (True, ds1)" "ds1 x \<noteq> []"
      "ac3_loop cw ds1 (arcs @ map (\<lambda>z. (z, x)) (removeAll y (neighbors cw x))) = Inr (b, ds', q)"
  | (unchanged) "revise cw ds x y = Inr (False, ds)" "ac3_loop cw ds arcs = Inr (b, ds', q)"
proof (cases "revise cw ds x y")
  case (Inl e)
  with assms show ?thesis by simp
next
  case (Inr p)
  obtain r ds1 where p: "p = (r, ds1)" by (cases p)
  show ?thesis
  proof (cases r)
    case True
    with Inr p assms emptied revised show ?thesis
      by (cases "ds1 x = []") auto
  next
    case False
    with Inr p have "ds1 = ds" by (auto dest: revise_False_same)
    with False Inr p assms unchanged show ?thesis by simp
  qed
qed

lemma revise_subset: "revise cw ds x y = Inr (r, ds1) \<Longrightarrow> set (ds1 v) \<subseteq> set (ds v)"
  by (drule revise_Inr) (auto split: option.splits if_splits)

lemma ac3_loop_subset:
  "ac3_loop cw ds arcs = Inr (b, ds', q) \<Longrightarrow> set (ds' v) \<subseteq> set (ds v)"
proof (induction cw ds arcs rule: ac3_loop.induct)
  case (1 cw ds)
  then show ?case by simp
next
  case (2 cw ds x y arcs)
  from "2.prems" show ?case
  proof (cases rule: ac3_loop_cases)
    case (emptied ds1)
    from revise_subset [OF emptied(1)] emptied(4) show ?thesis by simp
  next
    case (revised ds1)
    from "2.IH"(1) [OF revised(1) refl] revised have "set (ds' v) \<subseteq> set (ds1 v)" by simp
    moreover from revise_subset [OF revised(1)] have "set (ds1 v) \<subseteq> set (ds v)" .
    ultimately show ?thesis by blast
  next
    case unchanged
    from "2.IH"(2) [OF unchanged(1) refl] unchanged(2) show ?thesis by simp
  qed
qed

lemma ac3_loop_True_drained:
  "ac3_loop cw ds arcs = Inr (True, ds', q) \<Longrightarrow> q = []"
proof (induction cw ds arcs rule: ac3_loop.induct)
  case (1 cw ds)
  then show ?case by simp
next
  case (2 cw ds x y arcs)
  from "2.prems" show ?case
  proof (cases rule: ac3_loop_cases)
    case (emptied ds1)
    then show ?thesis by simp
  next
    case (revised ds1)
    from "2.IH"(1) [OF revised(1) refl] revised show ?thesis by simp
  next
    case unchanged
    from "2.IH"(2) [OF unchanged(1) refl] unchanged(2) show ?thesis by simp
  qed
qed

lemma ac3_loop_False_iff:
  "ac3_loop cw ds arcs = Inr (b, ds', q) \<Longrightarrow> (\<not> b) = (\<exists>v. ds v \<noteq> [] \<and> ds' v = [])"
proof (induction cw ds arcs rule: ac3_loop.induct)
  case (1 cw ds)
  then show ?case by auto
next
  case (2 cw ds x y arcs)
  from "2.prems" show ?case
  proof (cases rule: ac3_loop_cases)
    case (emptied ds1)
    from revise_True_shrinks [OF emptied(1)] emptied(2) have "ds x \<noteq> []" by auto
    with emptied show ?thesis by auto
  next
    case (revised ds1)
    from "2.IH"(1) [OF revised(1) refl] revised
    have i: "(\<not> b) = (\<exists>v. ds1 v \<noteq> [] \<and> ds' v = [])" by simp
    from revise_True_shrinks [OF revised(1)] revised(2)
    have "(ds1 v \<noteq> []) = (ds v \<noteq> [])" for v
      by (cases "v = x") auto
    with i show ?thesis by simp
  next
    case unchanged
    from "2.IH"(2) [OF unchanged(1) refl] unchanged(2) show ?thesis by simp
  qed
qed

lemma set_initial_arcs:
  "set (initial_arcs cw) =
     {(x, y). x \<in> set (variables cw) \<and> y \<in> set (variables cw) \<and> x \<noteq> y \<and> overlaps cw (x, y) \<noteq> None}"
  by (auto simp: initial_arcs_def overlap_keys_def)

text \<open>Reading a run off an evaluated \<open>case\<close>.\<close>

lemma run_result:
  "(case r of Inl e \<Rightarrow> False | Inr (b, ds1, q) \<Rightarrow> P b ds1 q) \<Longrightarrow>
   \<exists>b ds1 q. r = Inr (b, ds1, q) \<and> P b ds1 q"
  by (cases r) auto

lemma revise_result:
  "(case r of Inl e \<Rightarrow> False | Inr (b, ds1) \<Rightarrow> P b ds1) \<Longrightarrow>
   \<exists>b ds1. r = Inr (b, ds1) \<and> P b ds1"
  by (cases r) auto

lemma corner_revise_raises_eval:
  "(case revise (corner [''AB'', ''CAT'']) (init_domains (corner [''AB'', ''CAT''])) across down of
      Inl e \<Rightarrow> e = IndexError | Inr r \<Rightarrow> False)"
  by code_simp

lemma corner_revise_raises:
  "revise (corner [''AB'', ''CAT'']) (init_domains (corner [''AB'', ''CAT''])) across down
     = Inl IndexError"
  using corner_revise_raises_eval
  by (cases "revise (corner [''AB'', ''CAT'']) (init_domains (corner [''AB'', ''CAT''])) across down")
    (simp_all only: sum.case)

lemma corner_revise_empties:
  "(case revise (corner [''CAT'', ''DOG'']) (init_domains (corner [''CAT'', ''DOG''])) across down of
      Inl e \<Rightarrow> False | Inr (b, ds1) \<Rightarrow> b \<and> ds1 across = [])"
  by code_simp

lemma arch_revise_shrinks:
  "(case revise arch (init_domains arch) lintel west of
      Inl e \<Rightarrow> False | Inr (b, ds1) \<Rightarrow> b \<and> ds1 lintel = [''TOT'', ''TAT''])"
  by code_simp

lemma corner_revise_keeps:
  "(case revise (corner five_words) (init_domains (corner five_words)) across down of
      Inl e \<Rightarrow> False | Inr (b, ds1) \<Rightarrow> \<not> b)"
  by code_simp

lemma arch_run:
  "(case ac3 arch (init_domains arch) (Some [(lintel, west)]) of
      Inl e \<Rightarrow> False
    | Inr (b, ds1, q) \<Rightarrow>
        b \<and> map ds1 [lintel, west, east]
              = [[''TOT'', ''TAT''], [''TOT'', ''TAT'', ''ANT''], [''TOT'', ''TAT'']])"
  by code_simp

text \<open>
  Claim C7: \<^verbatim>\<open>ac3\<close> works through a first-in first-out list. Without an argument
  the list holds every ordered pair of variables with an overlap. The empty list ends
  the loop with true. Otherwise the head \<open>(x, y)\<close> is taken off and \<^verbatim>\<open>revise(x, y)\<close>
  runs: an exception leaves \<^verbatim>\<open>ac3\<close>; a revision that empties the domain of \<open>x\<close>
  returns false at once; any other revision appends \<open>(z, x)\<close> for every neighbour \<open>z\<close>
  of \<open>x\<close> other than \<open>y\<close>; no revision leaves the rest of the list as it is. The value
  returned is true exactly when no domain that had a word has lost them all.
\<close>

theorem ac3_fifo_worklist:
  "ac3 cw ds None = ac3_loop cw ds (initial_arcs cw) \<and>
   set (initial_arcs cw) =
     {(x, y). x \<in> set (variables cw) \<and> y \<in> set (variables cw) \<and> x \<noteq> y \<and>
              overlaps cw (x, y) \<noteq> None} \<and>
   ac3 cw ds (Some arcs) = ac3_loop cw ds arcs \<and>
   ac3_loop cw ds [] = Inr (True, ds, []) \<and>
   (revise cw ds x y = Inl e \<longrightarrow> ac3_loop cw ds ((x, y) # rest) = Inl e) \<and>
   (revise cw ds x y = Inr (True, ds1) \<and> ds1 x = [] \<longrightarrow>
      ac3_loop cw ds ((x, y) # rest) = Inr (False, ds1, rest)) \<and>
   (revise cw ds x y = Inr (True, ds1) \<and> ds1 x \<noteq> [] \<longrightarrow>
      (\<exists>pushed. set pushed = {(z, x) |z. z \<in> set (neighbors cw x) \<and> z \<noteq> y} \<and>
                ac3_loop cw ds ((x, y) # rest) = ac3_loop cw ds1 (rest @ pushed))) \<and>
   (revise cw ds x y = Inr (False, ds1) \<longrightarrow>
      ac3_loop cw ds ((x, y) # rest) = ac3_loop cw ds rest) \<and>
   (ac3_loop cw ds arcs = Inr (b, ds', q) \<longrightarrow> b = (\<not> (\<exists>v. ds v \<noteq> [] \<and> ds' v = [])))"
proof (intro conjI impI)
  show "ac3 cw ds None = ac3_loop cw ds (initial_arcs cw)" by (simp add: ac3_def)
  show "set (initial_arcs cw) =
     {(x, y). x \<in> set (variables cw) \<and> y \<in> set (variables cw) \<and> x \<noteq> y \<and>
              overlaps cw (x, y) \<noteq> None}" by (rule set_initial_arcs)
  show "ac3 cw ds (Some arcs) = ac3_loop cw ds arcs" by (simp add: ac3_def)
  show "ac3_loop cw ds [] = Inr (True, ds, [])" by simp
next
  assume "revise cw ds x y = Inl e"
  then show "ac3_loop cw ds ((x, y) # rest) = Inl e" by simp
next
  assume "revise cw ds x y = Inr (True, ds1) \<and> ds1 x = []"
  then show "ac3_loop cw ds ((x, y) # rest) = Inr (False, ds1, rest)" by simp
next
  assume a: "revise cw ds x y = Inr (True, ds1) \<and> ds1 x \<noteq> []"
  let ?pushed = "map (\<lambda>z. (z, x)) (removeAll y (neighbors cw x))"
  have "set ?pushed = {(z, x) |z. z \<in> set (neighbors cw x) \<and> z \<noteq> y}" by auto
  moreover from a have "ac3_loop cw ds ((x, y) # rest) = ac3_loop cw ds1 (rest @ ?pushed)"
    by simp
  ultimately show "\<exists>pushed. set pushed = {(z, x) |z. z \<in> set (neighbors cw x) \<and> z \<noteq> y} \<and>
                ac3_loop cw ds ((x, y) # rest) = ac3_loop cw ds1 (rest @ pushed)" by blast
next
  assume a: "revise cw ds x y = Inr (False, ds1)"
  then have "ds1 = ds" by (rule revise_False_same)
  with a show "ac3_loop cw ds ((x, y) # rest) = ac3_loop cw ds rest" by simp
next
  assume "ac3_loop cw ds arcs = Inr (b, ds', q)"
  from ac3_loop_False_iff [OF this] show "b = (\<not> (\<exists>v. ds v \<noteq> [] \<and> ds' v = []))" by blast
qed

theorem ac3_fifo_worklist_witness:
  "ac3_loop (corner [''AB'', ''CAT'']) (init_domains (corner [''AB'', ''CAT'']))
       [(across, down), (down, across)] = Inl IndexError
   \<and> (\<exists>ds1. ds1 across = [] \<and>
         ac3_loop (corner [''CAT'', ''DOG'']) (init_domains (corner [''CAT'', ''DOG'']))
           [(across, down), (down, across)] = Inr (False, ds1, [(down, across)]))
   \<and> (\<exists>ds1 pushed. ds1 lintel = [''TOT'', ''TAT''] \<and>
         set pushed = {(z, lintel) |z. z \<in> set (neighbors arch lintel) \<and> z \<noteq> west} \<and>
         ac3_loop arch (init_domains arch) [(lintel, west)] = ac3_loop arch ds1 ([] @ pushed))
   \<and> ac3_loop (corner five_words) (init_domains (corner five_words)) [(across, down)]
       = ac3_loop (corner five_words) (init_domains (corner five_words)) []
   \<and> (\<exists>ds1 q. ac3_loop arch (init_domains arch) [(lintel, west)] = Inr (True, ds1, q) \<and>
         \<not> (\<exists>v. init_domains arch v \<noteq> [] \<and> ds1 v = []))"
proof (intro conjI)
  from ac3_fifo_worklist [THEN conjunct2, THEN conjunct2, THEN conjunct2, THEN conjunct2,
      THEN conjunct1, THEN mp, OF corner_revise_raises]
  show "ac3_loop (corner [''AB'', ''CAT'']) (init_domains (corner [''AB'', ''CAT'']))
       [(across, down), (down, across)] = Inl IndexError" .
next
  from revise_result [OF corner_revise_empties] obtain b ds1 where
    r0: "revise (corner [''CAT'', ''DOG'']) (init_domains (corner [''CAT'', ''DOG''])) across down
          = Inr (b, ds1)" and b0: b and e: "ds1 across = []"
    by (elim exE conjE) (rule that)
  from b0 have b: "b = True" by (rule eqTrueI)
  from r0 have r: "revise (corner [''CAT'', ''DOG'']) (init_domains (corner [''CAT'', ''DOG'']))
      across down = Inr (True, ds1)" unfolding b .
  from ac3_fifo_worklist [THEN conjunct2, THEN conjunct2, THEN conjunct2, THEN conjunct2,
      THEN conjunct2, THEN conjunct1, THEN mp, OF conjI [OF r e]]
  have "ac3_loop (corner [''CAT'', ''DOG'']) (init_domains (corner [''CAT'', ''DOG'']))
           [(across, down), (down, across)] = Inr (False, ds1, [(down, across)])" .
  with e show "\<exists>ds1. ds1 across = [] \<and>
         ac3_loop (corner [''CAT'', ''DOG'']) (init_domains (corner [''CAT'', ''DOG'']))
           [(across, down), (down, across)] = Inr (False, ds1, [(down, across)])"
    by (intro exI [of _ ds1] conjI)
next
  from revise_result [OF arch_revise_shrinks] obtain b ds1 where
    r0: "revise arch (init_domains arch) lintel west = Inr (b, ds1)" and b0: b
    and e: "ds1 lintel = [''TOT'', ''TAT'']"
    by (elim exE conjE) (rule that)
  from b0 have b: "b = True" by (rule eqTrueI)
  from r0 have r: "revise arch (init_domains arch) lintel west = Inr (True, ds1)" unfolding b .
  from e have n: "ds1 lintel \<noteq> []" by simp
  from ac3_fifo_worklist [THEN conjunct2, THEN conjunct2, THEN conjunct2, THEN conjunct2,
      THEN conjunct2, THEN conjunct2, THEN conjunct1, THEN mp, OF conjI [OF r n], of "[]"]
  obtain pushed where "set pushed = {(z, lintel) |z. z \<in> set (neighbors arch lintel) \<and> z \<noteq> west}"
    "ac3_loop arch (init_domains arch) [(lintel, west)] = ac3_loop arch ds1 ([] @ pushed)"
    by (elim exE conjE) (rule that)
  with e show "\<exists>ds1 pushed. ds1 lintel = [''TOT'', ''TAT''] \<and>
         set pushed = {(z, lintel) |z. z \<in> set (neighbors arch lintel) \<and> z \<noteq> west} \<and>
         ac3_loop arch (init_domains arch) [(lintel, west)] = ac3_loop arch ds1 ([] @ pushed)"
    by (intro exI [of _ ds1] exI [of _ pushed] conjI)
next
  from revise_result [OF corner_revise_keeps] obtain b ds1 where
    r0: "revise (corner five_words) (init_domains (corner five_words)) across down = Inr (b, ds1)"
    and b0: "\<not> b"
    by (elim exE conjE) (rule that)
  from b0 have b: "b = False" by simp
  from r0 have r: "revise (corner five_words) (init_domains (corner five_words)) across down
      = Inr (False, ds1)" unfolding b .
  from ac3_fifo_worklist [THEN conjunct2, THEN conjunct2, THEN conjunct2, THEN conjunct2,
      THEN conjunct2, THEN conjunct2, THEN conjunct2, THEN conjunct1, THEN mp, OF r]
  show "ac3_loop (corner five_words) (init_domains (corner five_words)) [(across, down)]
       = ac3_loop (corner five_words) (init_domains (corner five_words)) []" .
next
  from run_result [OF arch_run] obtain b ds1 q where
    r0: "ac3 arch (init_domains arch) (Some [(lintel, west)]) = Inr (b, ds1, q)" and b0: b
    by (elim exE conjE) (rule that)
  from b0 have b: "b = True" by (rule eqTrueI)
  from r0 have r: "ac3_loop arch (init_domains arch) [(lintel, west)] = Inr (True, ds1, q)"
    unfolding b by (simp add: ac3_def)
  from ac3_fifo_worklist [THEN conjunct2, THEN conjunct2, THEN conjunct2, THEN conjunct2,
      THEN conjunct2, THEN conjunct2, THEN conjunct2, THEN conjunct2, THEN mp, OF r]
  have "True = (\<not> (\<exists>v. init_domains arch v \<noteq> [] \<and> ds1 v = []))" .
  then have "\<not> (\<exists>v. init_domains arch v \<noteq> [] \<and> ds1 v = [])" by (rule eqTrueE [OF sym])
  with r show "\<exists>ds1 q. ac3_loop arch (init_domains arch) [(lintel, west)] = Inr (True, ds1, q) \<and>
         \<not> (\<exists>v. init_domains arch v \<noteq> [] \<and> ds1 v = [])"
    by (intro exI [of _ ds1] exI [of _ q] conjI)
qed

text \<open>Runs on the porch and the corner that the next statement is checked against.\<close>

lemma porch_neighbors: "neighbors porch lintel = [west, post]"
  by code_simp

lemma porch_pushed:
  assumes "set pushed = {(z, lintel) |z. z \<in> set (neighbors porch lintel) \<and> z \<noteq> west}"
    and "length pushed = length (filter (\<lambda>z. z \<noteq> west) (neighbors porch lintel))"
  shows "pushed = [(post, lintel)]"
proof -
  have n: "west \<noteq> post" by (simp add: west_def post_def)
  with assms(2) have "length pushed = 1" by (simp add: porch_neighbors)
  then obtain p where p: "pushed = [p]" by (cases pushed) auto
  from assms(1) n have "set pushed = {(post, lintel)}" by (auto simp: porch_neighbors)
  with p show ?thesis by simp
qed

lemma porch_revise_shrinks:
  "(case revise porch porch_domains lintel west of
      Inl e \<Rightarrow> False | Inr (b, ds1) \<Rightarrow> b \<and> ds1 lintel = [''TOT'', ''TAT''])"
  by code_simp

lemma porch_run:
  "(case ac3 porch porch_domains (Some [(lintel, west), (post, lintel), (west, lintel)]) of
      Inl e \<Rightarrow> False
    | Inr (b, ds', q) \<Rightarrow> \<not> b \<and> q = [(west, lintel), (post, lintel)])"
  by code_simp

lemma corner_keeps_run:
  "(case ac3 (corner five_words) (init_domains (corner five_words)) (Some []) of
      Inl e \<Rightarrow> False | Inr (b, ds', q) \<Rightarrow> b \<and> q = [])"
  by code_simp

text \<open>
  Claim C10: a list passed as \<^verbatim>\<open>arcs\<close> is the list the loop works on, so the third
  component of the result is the caller's list as the call leaves it. The empty list is
  returned empty. From \<open>(x, y) # rest\<close> the head is taken off the front: when
  \<^verbatim>\<open>revise\<close> raises, so does \<^verbatim>\<open>ac3\<close>; when the revision empties the domain of
  \<open>x\<close>, the caller is left with exactly \<open>rest\<close>; after any other revision the call
  goes on with \<open>rest\<close> followed at the back by one arc \<open>(z, x)\<close> for each neighbour
  \<open>z\<close> of \<open>x\<close> other than \<open>y\<close>; without a revision it goes on with \<open>rest\<close>.
  Whenever \<^verbatim>\<open>ac3\<close> returns true, the list is empty.
\<close>

theorem ac3_consumes_supplied_arcs:
  "ac3 cw ds (Some []) = Inr (True, ds, []) \<and>
   (revise cw ds x y = Inl e \<longrightarrow> ac3 cw ds (Some ((x, y) # rest)) = Inl e) \<and>
   (revise cw ds x y = Inr (True, ds1) \<and> ds1 x = [] \<longrightarrow>
      ac3 cw ds (Some ((x, y) # rest)) = Inr (False, ds1, rest)) \<and>
   (revise cw ds x y = Inr (True, ds1) \<and> ds1 x \<noteq> [] \<longrightarrow>
      (\<exists>pushed. set pushed = {(z, x) |z. z \<in> set (neighbors cw x) \<and> z \<noteq> y} \<and>
                length pushed = length (filter (\<lambda>z. z \<noteq> y) (neighbors cw x)) \<and>
                ac3 cw ds (Some ((x, y) # rest)) = ac3 cw ds1 (Some (rest @ pushed)))) \<and>
   (revise cw ds x y = Inr (False, ds1) \<longrightarrow>
      ac3 cw ds (Some ((x, y) # rest)) = ac3 cw ds (Some rest)) \<and>
   (ac3 cw ds (Some arcs) = Inr (True, ds', q) \<longrightarrow> q = [])"
proof (intro conjI impI)
  show "ac3 cw ds (Some []) = Inr (True, ds, [])" by (simp add: ac3_def)
next
  assume "revise cw ds x y = Inl e"
  then show "ac3 cw ds (Some ((x, y) # rest)) = Inl e" by (simp add: ac3_def)
next
  assume "revise cw ds x y = Inr (True, ds1) \<and> ds1 x = []"
  then show "ac3 cw ds (Some ((x, y) # rest)) = Inr (False, ds1, rest)" by (simp add: ac3_def)
next
  assume a: "revise cw ds x y = Inr (True, ds1) \<and> ds1 x \<noteq> []"
  let ?pushed = "map (\<lambda>z. (z, x)) (removeAll y (neighbors cw x))"
  have "set ?pushed = {(z, x) |z. z \<in> set (neighbors cw x) \<and> z \<noteq> y}" by auto
  moreover have "length ?pushed = length (filter (\<lambda>z. z \<noteq> y) (neighbors cw x))"
    by (simp add: removeAll_filter_not_eq) (metis (mono_tags, lifting) filter_cong)
  moreover from a have "ac3 cw ds (Some ((x, y) # rest)) = ac3 cw ds1 (Some (rest @ ?pushed))"
    by (simp add: ac3_def)
  ultimately show "\<exists>pushed. set pushed = {(z, x) |z. z \<in> set (neighbors cw x) \<and> z \<noteq> y} \<and>
                length pushed = length (filter (\<lambda>z. z \<noteq> y) (neighbors cw x)) \<and>
                ac3 cw ds (Some ((x, y) # rest)) = ac3 cw ds1 (Some (rest @ pushed))" by blast
next
  assume a: "revise cw ds x y = Inr (False, ds1)"
  then have "ds1 = ds" by (rule revise_False_same)
  with a show "ac3 cw ds (Some ((x, y) # rest)) = ac3 cw ds (Some rest)" by (simp add: ac3_def)
next
  assume "ac3 cw ds (Some arcs) = Inr (True, ds', q)"
  then show "q = []" by (simp add: ac3_def ac3_loop_True_drained)
qed

theorem ac3_consumes_supplied_arcs_witness:
  "ac3 (corner [''AB'', ''CAT'']) (init_domains (corner [''AB'', ''CAT'']))
       (Some [(across, down), (down, across)]) = Inl IndexError
   \<and> (\<exists>ds1. ds1 across = [] \<and>
         ac3 (corner [''CAT'', ''DOG'']) (init_domains (corner [''CAT'', ''DOG'']))
           (Some [(across, down), (down, across)]) = Inr (False, ds1, [(down, across)]))
   \<and> (\<exists>ds1 ds'. ds1 lintel = [''TOT'', ''TAT''] \<and>
         ac3 porch porch_domains (Some [(lintel, west), (post, lintel), (west, lintel)])
           = ac3 porch ds1 (Some [(post, lintel), (west, lintel), (post, lintel)]) \<and>
         ac3 porch ds1 (Some [(post, lintel), (west, lintel), (post, lintel)])
           = Inr (False, ds', [(west, lintel), (post, lintel)]))
   \<and> (\<exists>b ds' q.
         ac3 (corner five_words) (init_domains (corner five_words)) (Some [(across, down)])
           = Inr (b, ds', q) \<and> b \<and> q = [])
   \<and> (\<exists>ds'. ac3 arch (init_domains arch) (Some [(lintel, west)]) = Inr (True, ds', []))"
proof (intro conjI)
  from ac3_consumes_supplied_arcs [THEN conjunct2, THEN conjunct1, THEN mp,
      OF corner_revise_raises]
  show "ac3 (corner [''AB'', ''CAT'']) (init_domains (corner [''AB'', ''CAT'']))
       (Some [(across, down), (down, across)]) = Inl IndexError" .
next
  from revise_result [OF corner_revise_empties] obtain b ds1 where
    r0: "revise (corner [''CAT'', ''DOG'']) (init_domains (corner [''CAT'', ''DOG''])) across down
          = Inr (b, ds1)" and b0: b and e: "ds1 across = []"
    by (elim exE conjE) (rule that)
  from b0 have b: "b = True" by (rule eqTrueI)
  from r0 have r: "revise (corner [''CAT'', ''DOG'']) (init_domains (corner [''CAT'', ''DOG'']))
      across down = Inr (True, ds1)" unfolding b .
  from ac3_consumes_supplied_arcs [THEN conjunct2, THEN conjunct2, THEN conjunct1, THEN mp,
      OF conjI [OF r e]]
  have "ac3 (corner [''CAT'', ''DOG'']) (init_domains (corner [''CAT'', ''DOG'']))
           (Some [(across, down), (down, across)]) = Inr (False, ds1, [(down, across)])" .
  with e show "\<exists>ds1. ds1 across = [] \<and>
         ac3 (corner [''CAT'', ''DOG'']) (init_domains (corner [''CAT'', ''DOG'']))
           (Some [(across, down), (down, across)]) = Inr (False, ds1, [(down, across)])"
    by (intro exI [of _ ds1] conjI)
next
  from revise_result [OF porch_revise_shrinks] obtain b ds1 where
    r0: "revise porch porch_domains lintel west = Inr (b, ds1)" and b0: b
    and e: "ds1 lintel = [''TOT'', ''TAT'']"
    by (elim exE conjE) (rule that)
  from b0 have b: "b = True" by (rule eqTrueI)
  from r0 have r: "revise porch porch_domains lintel west = Inr (True, ds1)" unfolding b .
  from e have n: "ds1 lintel \<noteq> []" by simp
  from ac3_consumes_supplied_arcs [THEN conjunct2, THEN conjunct2, THEN conjunct2,
      THEN conjunct1, THEN mp, OF conjI [OF r n], of "[(post, lintel), (west, lintel)]"]
  obtain pushed where
    s: "set pushed = {(z, lintel) |z. z \<in> set (neighbors porch lintel) \<and> z \<noteq> west}"
    and l: "length pushed = length (filter (\<lambda>z. z \<noteq> west) (neighbors porch lintel))"
    and a: "ac3 porch porch_domains (Some ((lintel, west) # [(post, lintel), (west, lintel)]))
          = ac3 porch ds1 (Some ([(post, lintel), (west, lintel)] @ pushed))"
    by (elim exE conjE) (rule that)
  from porch_pushed [OF s l] a
  have a': "ac3 porch porch_domains (Some [(lintel, west), (post, lintel), (west, lintel)])
          = ac3 porch ds1 (Some [(post, lintel), (west, lintel), (post, lintel)])" by simp
  from run_result [OF porch_run] obtain c ds' q where
    f0: "ac3 porch porch_domains (Some [(lintel, west), (post, lintel), (west, lintel)])
          = Inr (c, ds', q)" and c0: "\<not> c" and q: "q = [(west, lintel), (post, lintel)]"
    by (elim exE conjE) (rule that)
  from c0 have c: "c = False" by simp
  from f0 have "ac3 porch porch_domains (Some [(lintel, west), (post, lintel), (west, lintel)])
          = Inr (False, ds', [(west, lintel), (post, lintel)])" unfolding c q .
  with a' have "ac3 porch ds1 (Some [(post, lintel), (west, lintel), (post, lintel)])
          = Inr (False, ds', [(west, lintel), (post, lintel)])" by (rule subst)
  with e a' show "\<exists>ds1 ds'. ds1 lintel = [''TOT'', ''TAT''] \<and>
         ac3 porch porch_domains (Some [(lintel, west), (post, lintel), (west, lintel)])
           = ac3 porch ds1 (Some [(post, lintel), (west, lintel), (post, lintel)]) \<and>
         ac3 porch ds1 (Some [(post, lintel), (west, lintel), (post, lintel)])
           = Inr (False, ds', [(west, lintel), (post, lintel)])"
    by (intro exI [of _ ds1] exI [of _ ds'] conjI)
next
  from revise_result [OF corner_revise_keeps] obtain b ds1 where
    r0: "revise (corner five_words) (init_domains (corner five_words)) across down = Inr (b, ds1)"
    and b0: "\<not> b"
    by (elim exE conjE) (rule that)
  from b0 have b: "b = False" by simp
  from r0 have r: "revise (corner five_words) (init_domains (corner five_words)) across down
      = Inr (False, ds1)" unfolding b .
  from ac3_consumes_supplied_arcs [THEN conjunct2, THEN conjunct2, THEN conjunct2,
      THEN conjunct2, THEN conjunct1, THEN mp, OF r]
  have k: "ac3 (corner five_words) (init_domains (corner five_words)) (Some [(across, down)])
       = ac3 (corner five_words) (init_domains (corner five_words)) (Some [])" .
  from run_result [OF corner_keeps_run] obtain c ds' q where
    "ac3 (corner five_words) (init_domains (corner five_words)) (Some []) = Inr (c, ds', q)"
    and "c" and "q = []"
    by (elim exE conjE) (rule that)
  with k show "\<exists>b ds' q.
         ac3 (corner five_words) (init_domains (corner five_words)) (Some [(across, down)])
           = Inr (b, ds', q) \<and> b \<and> q = []"
    by (intro exI [of _ c] exI [of _ ds'] exI [of _ q] conjI) simp_all
next
  from run_result [OF arch_run] obtain b ds1 q where
    r0: "ac3 arch (init_domains arch) (Some [(lintel, west)]) = Inr (b, ds1, q)" and b0: b
    by (elim exE conjE) (rule that)
  from b0 have b: "b = True" by (rule eqTrueI)
  from r0 have r: "ac3 arch (init_domains arch) (Some [(lintel, west)]) = Inr (True, ds1, q)"
    unfolding b .
  from ac3_consumes_supplied_arcs [THEN conjunct2, THEN conjunct2, THEN conjunct2,
      THEN conjunct2, THEN conjunct2, THEN mp, OF r] have q: "q = []" .
  from r have "ac3 arch (init_domains arch) (Some [(lintel, west)]) = Inr (True, ds1, [])"
    unfolding q .
  then show "\<exists>ds'. ac3 arch (init_domains arch) (Some [(lintel, west)]) = Inr (True, ds', [])"
    by (rule exI [where x = ds1])
qed

section \<open>\<^verbatim>\<open>ac3\<close> shrinks the domains and reaches a fixed point\<close>

lemma revise_loop_Inr_safe:
  "revise_loop i j dy xs dx revised = Inr (r, dx') \<Longrightarrow>
   xs = [] \<or> dy = [] \<or> ((\<forall>X\<in>set xs. i < length X) \<and> (\<forall>Y\<in>set dy. j < length Y))"
proof (induction xs arbitrary: dx revised)
  case Nil
  then show ?case by simp
next
  case (Cons X xs)
  from Cons.prems obtain found where v: "valid_option i j X dy False = Inr found"
    by (auto split: sum.splits)
  from valid_option_Inr [OF v]
  have s: "dy = [] \<or> (i < length X \<and> (\<forall>Y\<in>set dy. j < length Y))" by simp
  from Cons.prems v obtain dx1 rev1 where "revise_loop i j dy xs dx1 rev1 = Inr (r, dx')"
    by (auto split: if_splits)
  from Cons.IH [OF this] s show ?case by auto
qed

lemma stable_arc_revise:
  assumes "x \<in> set (variables cw)" "y \<in> set (variables cw)" "x \<noteq> y" "stable_arc cw ds (x, y)"
  shows "revise cw ds x y = Inr (False, ds)"
proof (cases "overlaps cw (x, y)")
  case None
  with assms show ?thesis by (simp add: revise_def overlaps_get_def)
next
  case (Some p)
  obtain i j where p: "p = (i, j)" by (cases p)
  have "\<exists>r dx. revise_loop i j (ds y) (ds x) (ds x) False = Inr (r, dx)"
  proof (cases "ds x = []")
    case True
    then show ?thesis by auto
  next
    case False
    with assms(4) Some p show ?thesis
      by (intro revise_loop_safe) (auto simp: stable_arc_def list_all_iff)
  qed
  then obtain r dx where l: "revise_loop i j (ds y) (ds x) (ds x) False = Inr (r, dx)" by blast
  from assms(4) Some p have a: "\<forall>X\<in>set (ds x). supported i j (ds y) X"
    by (auto simp: stable_arc_def list_all_iff)
  from revise_loop_Inr [OF l] a have "dx = ds x" "\<not> r" by (auto simp: filter_id_conv)
  with l assms(1-3) Some p show ?thesis by (simp add: revise_def overlaps_get_def)
qed

lemma revise_makes_stable:
  assumes "revise cw ds x y = Inr (r, ds1)"
  shows "stable_arc cw ds1 (x, y)"
proof (cases "overlaps cw (x, y)")
  case None
  then show ?thesis by (simp add: stable_arc_def)
next
  case (Some p)
  obtain i j where p: "p = (i, j)" by (cases p)
  from revise_Inr [OF assms] Some p have k: "x \<in> set (variables cw)" "y \<in> set (variables cw)" "x \<noteq> y"
    and d: "ds1 = ds(x := filter (supported i j (ds y)) (ds x))" by auto
  from assms k Some p obtain dx where l: "revise_loop i j (ds y) (ds x) (ds x) False = Inr (r, dx)"
    by (auto simp: revise_def overlaps_get_def split: sum.splits)
  show ?thesis
  proof (cases "ds1 x = []")
    case True
    with Some p show ?thesis by (simp add: stable_arc_def)
  next
    case False
    with d obtain X where "X \<in> set (ds x)" "supported i j (ds y) X"
      by (auto simp: filter_empty_conv)
    then have "ds x \<noteq> []" "ds y \<noteq> []" by (auto simp: supported_def)
    with revise_loop_Inr_safe [OF l]
    have "(\<forall>X\<in>set (ds x). i < length X) \<and> (\<forall>Y\<in>set (ds y). j < length Y)" by simp
    with d k Some p show ?thesis by (auto simp: stable_arc_def list_all_iff)
  qed
qed

lemma stable_arc_shrink_first:
  assumes "stable_arc cw ds (u, v)" "u \<noteq> v"
  shows "stable_arc cw (ds(u := filter P (ds u))) (u, v)"
  using assms by (auto simp: stable_arc_def list_all_iff split: option.splits)

lemma stable_arc_other:
  assumes "stable_arc cw ds (u, v)" "x \<noteq> u" "x \<noteq> v"
  shows "stable_arc cw (ds(x := d)) (u, v)"
  using assms by (auto simp: stable_arc_def split: option.splits)

lemma stable_arc_reverse:
  assumes "stable_arc cw ds (y, x)" "x \<noteq> y"
    and "overlaps cw (x, y) = Some (i, j)" "overlaps cw (y, x) = Some (j, i)"
  shows "stable_arc cw (ds(x := filter (supported i j (ds y)) (ds x))) (y, x)"
proof (cases "ds y = []")
  case True
  with assms show ?thesis by (simp add: stable_arc_def)
next
  case False
  with assms have a: "\<forall>Y\<in>set (ds y). j < length Y \<and> supported j i (ds x) Y"
    and b: "\<forall>X\<in>set (ds x). i < length X"
    by (auto simp: stable_arc_def list_all_iff)
  have "supported j i (filter (supported i j (ds y)) (ds x)) Y" if "Y \<in> set (ds y)" for Y
  proof -
    from a that obtain X where X: "X \<in> set (ds x)" "Y ! j = X ! i" "Y \<noteq> X"
      by (auto simp: supported_def)
    with that have "supported i j (ds y) X" unfolding supported_def by metis
    with X show ?thesis by (auto simp: supported_def)
  qed
  with a b assms show ?thesis by (auto simp: stable_arc_def list_all_iff)
qed

lemma overlaps_symmetricD:
  "overlaps_symmetric cw \<Longrightarrow> x \<in> set (variables cw) \<Longrightarrow> y \<in> set (variables cw) \<Longrightarrow>
   overlaps cw (y, x) = map_option prod.swap (overlaps cw (x, y))"
  unfolding overlaps_symmetric_def list_all_iff by blast

lemma arcs_covered_revised:
  assumes sym: "overlaps_symmetric cw"
    and cov: "arcs_covered cw ds ((x, y) # arcs)"
    and rev: "revise cw ds x y = Inr (r, ds1)"
  shows "arcs_covered cw ds1 (arcs @ map (\<lambda>z. (z, x)) (removeAll y (neighbors cw x)))"
  unfolding arcs_covered_def list_all_iff
proof
  fix arc assume i: "arc \<in> set (initial_arcs cw)"
  obtain u v where arc: "arc = (u, v)" by (cases arc)
  from i arc have uv: "u \<in> set (variables cw)" "v \<in> set (variables cw)" "u \<noteq> v"
    "overlaps cw (u, v) \<noteq> None"
    by (auto simp: set_initial_arcs)
  from revise_Inr [OF rev] have xy: "x \<in> set (variables cw)" "y \<in> set (variables cw)" "x \<noteq> y"
    by auto
  let ?q = "arcs @ map (\<lambda>z. (z, x)) (removeAll y (neighbors cw x))"
  show "arc \<in> set ?q \<or> stable_arc cw ds1 arc"
  proof (cases "arc = (x, y)")
    case True
    with revise_makes_stable [OF rev] show ?thesis by simp
  next
    case False
    show ?thesis
    proof (cases "arc \<in> set arcs")
      case True
      then show ?thesis by simp
    next
      case n: False
      with False cov i have st: "stable_arc cw ds (u, v)"
        by (auto simp: arcs_covered_def list_all_iff arc)
      show ?thesis
      proof (cases "overlaps cw (x, y)")
        case None
        with revise_Inr [OF rev] have "ds1 = ds" by simp
        with st arc show ?thesis by simp
      next
        case (Some p)
        obtain i j where p: "p = (i, j)" by (cases p)
        from revise_Inr [OF rev] Some p
        have d: "ds1 = ds(x := filter (supported i j (ds y)) (ds x))" by simp
        consider "u = x" | "v = x" "u = y" | "v = x" "u \<noteq> y" | "u \<noteq> x" "v \<noteq> x" by blast
        then show ?thesis
        proof cases
          case 1
          with st uv d arc show ?thesis by (simp add: stable_arc_shrink_first)
        next
          case 2
          from overlaps_symmetricD [OF sym xy(1,2)] Some p
          have "overlaps cw (y, x) = Some (j, i)" by simp
          from stable_arc_reverse [OF _ xy(3) _ this, of ds] st 2 Some p d arc
          show ?thesis by simp
        next
          case 3
          from overlaps_symmetricD [OF sym uv(1,2)] uv(4) 3
          have "overlaps cw (x, u) \<noteq> None" by auto
          with uv 3 have "u \<in> set (removeAll y (neighbors cw x))"
            by (auto simp: neighbors_def)
          with 3 arc show ?thesis by auto
        next
          case 4
          with st d arc show ?thesis by (simp add: stable_arc_other)
        qed
      qed
    qed
  qed
qed

lemma arcs_covered_unchanged:
  assumes cov: "arcs_covered cw ds ((x, y) # arcs)"
    and rev: "revise cw ds x y = Inr (False, ds)"
  shows "arcs_covered cw ds arcs"
  unfolding arcs_covered_def list_all_iff
proof
  fix arc assume "arc \<in> set (initial_arcs cw)"
  with cov have "arc = (x, y) \<or> arc \<in> set arcs \<or> stable_arc cw ds arc"
    by (simp add: arcs_covered_def list_all_iff)
  with revise_makes_stable [OF rev] show "arc \<in> set arcs \<or> stable_arc cw ds arc"
    by blast
qed

lemma ac3_loop_establishes_stable:
  "overlaps_symmetric cw \<Longrightarrow> arcs_covered cw ds arcs \<Longrightarrow>
   ac3_loop cw ds arcs = Inr (True, ds', q) \<Longrightarrow> arcs_covered cw ds' []"
proof (induction cw ds arcs rule: ac3_loop.induct)
  case (1 cw ds)
  then show ?case by simp
next
  case (2 cw ds x y arcs)
  from "2.prems"(3) show ?case
  proof (cases rule: ac3_loop_cases)
    case (emptied ds1)
    then show ?thesis by simp
  next
    case (revised ds1)
    from arcs_covered_revised [OF "2.prems"(1,2) revised(1)] "2.IH"(1) [OF revised(1) refl] revised
      "2.prems"(1)
    show ?thesis by simp
  next
    case unchanged
    from arcs_covered_unchanged [OF "2.prems"(2) unchanged(1)]
      "2.IH"(2) [OF unchanged(1) refl] unchanged "2.prems"(1)
    show ?thesis by simp
  qed
qed

lemma ac3_loop_stable:
  "\<forall>arc\<in>set arcs. arc \<in> set (initial_arcs cw) \<and> stable_arc cw ds arc \<Longrightarrow>
   ac3_loop cw ds arcs = Inr (True, ds, [])"
proof (induction arcs)
  case Nil
  then show ?case by simp
next
  case (Cons arc arcs)
  obtain x y where arc: "arc = (x, y)" by (cases arc)
  with Cons.prems have "x \<in> set (variables cw)" "y \<in> set (variables cw)" "x \<noteq> y"
    "stable_arc cw ds (x, y)"
    by (auto simp: set_initial_arcs)
  then have "revise cw ds x y = Inr (False, ds)" by (rule stable_arc_revise)
  with Cons arc show ?case by simp
qed

lemma ac3_fixpoint:
  assumes "overlaps_symmetric cw" "ac3 cw ds None = Inr (True, ds', q)"
  shows "ac3 cw ds' None = Inr (True, ds', [])"
proof -
  have "arcs_covered cw ds (initial_arcs cw)"
    by (simp add: arcs_covered_def list_all_iff)
  with assms have "arcs_covered cw ds' []"
    by (auto simp: ac3_def intro: ac3_loop_establishes_stable)
  then have "\<forall>arc\<in>set (initial_arcs cw). arc \<in> set (initial_arcs cw) \<and> stable_arc cw ds' arc"
    by (simp add: arcs_covered_def list_all_iff)
  then show ?thesis by (simp add: ac3_def ac3_loop_stable)
qed

text \<open>
  Claim C9: after \<^verbatim>\<open>ac3\<close> every domain is a subset of what it was, and on a crossword
  whose overlap table is symmetric a second run of \<^verbatim>\<open>ac3\<close> on the domains west by a
  run that returned true returns true and changes nothing.
\<close>

theorem ac3_monotone_and_idempotent:
  "(ac3 cw ds arcs = Inr (b, ds', q) \<longrightarrow> (\<forall>v. set (ds' v) \<subseteq> set (ds v))) \<and>
   (overlaps_symmetric cw \<and> ac3 cw ds None = Inr (True, ds1, q1) \<longrightarrow>
      ac3 cw ds1 None = Inr (True, ds1, []))"
proof (intro conjI impI allI)
  fix v assume "ac3 cw ds arcs = Inr (b, ds', q)"
  then show "set (ds' v) \<subseteq> set (ds v)"
    by (cases arcs) (auto simp: ac3_def dest: ac3_loop_subset)
next
  assume "overlaps_symmetric cw \<and> ac3 cw ds None = Inr (True, ds1, q1)"
  then show "ac3 cw ds1 None = Inr (True, ds1, [])"
    using ac3_fixpoint by blast
qed

lemma corner_overlaps_symmetric: "overlaps_symmetric (corner ws)"
  by (simp add: overlaps_symmetric_def corner_def corner_overlaps_def across_def down_def)

lemma corner_success_eval:
  "(case ac3 (corner five_words) (init_domains (corner five_words)) None of
      Inl e \<Rightarrow> False
    | Inr (b, ds1, q) \<Rightarrow>
        b \<and> q = [] \<and> map ds1 [across, down] = [five_words, [''TAN'', ''NET'', ''TEN'', ''TIN'']])"
  by code_simp

theorem ac3_monotone_and_idempotent_witness:
  "\<exists>ds1. ac3 (corner five_words) (init_domains (corner five_words)) None = Inr (True, ds1, [])
         \<and> map ds1 [across, down] = [five_words, [''TAN'', ''NET'', ''TEN'', ''TIN'']]
         \<and> set (ds1 down) \<subseteq> set (init_domains (corner five_words) down)
         \<and> ac3 (corner five_words) ds1 None = Inr (True, ds1, [])"
proof -
  from run_result [OF corner_success_eval] obtain b ds1 q where
    r0: "ac3 (corner five_words) (init_domains (corner five_words)) None = Inr (b, ds1, q)"
    and b0: b and q: "q = []"
    and m: "map ds1 [across, down] = [five_words, [''TAN'', ''NET'', ''TEN'', ''TIN'']]"
    by (elim exE conjE) (rule that)
  from b0 have b: "b = True" by (rule eqTrueI)
  from r0 have r: "ac3 (corner five_words) (init_domains (corner five_words)) None = Inr (True, ds1, [])"
    unfolding b q .
  note t = ac3_monotone_and_idempotent [of "corner five_words" "init_domains (corner five_words)"
      None True ds1 "[]" ds1 "[]"]
  from t [THEN conjunct1, THEN mp, OF r, THEN spec, of down]
  have s: "set (ds1 down) \<subseteq> set (init_domains (corner five_words) down)" .
  from t [THEN conjunct2, THEN mp, OF conjI [OF corner_overlaps_symmetric r]]
  have f: "ac3 (corner five_words) ds1 None = Inr (True, ds1, [])" .
  from r m s f show ?thesis by (intro exI [of _ ds1] conjI)
qed

end
